theory Spec2Isabelle
  imports Main "HOL-Library.Word" "HOL-Library.Signed_Division" "HOL-Library.Sublist"
begin

section \<open>Data model\<close>

type_synonym byte = "8 word"
type_synonym bytes = "byte list"

text \<open>
  Go's \<open>error\<close> values that the range-proof code distinguishes: the two sentinels of
  package \<open>io\<close>, the error of \<open>PushSubTree\<close> (pushed height, height of the smallest
  pending subtree) and any other error of the underlying data source.
\<close>

datatype error = EOF | ErrUnexpectedEOF | ErrHeight nat nat | ErrIO nat

text \<open>A Go \<open>panic\<close> carries a message, an error value, or is a run-time slice-bounds panic.\<close>

datatype panic = PanicMsg string | PanicErr error | PanicBounds

text \<open>
  The outcome of a call: a value with a nil error, a non-nil error, or a panic that
  unwinds the caller.
\<close>

datatype 'a result = Ok 'a | Err error | Panic panic

fun is_Panic :: "'a result \<Rightarrow> bool" where
  "is_Panic (Panic p) = True"
| "is_Panic r = False"

section \<open>Hash primitive and tree builder\<close>

text \<open>
  Modelled from the spec: \<open>leafSum\<close> and \<open>nodeSum\<close> (the repository's tree file is not
  part of the sources at hand). The hash primitive \<open>H\<close> is external and is a parameter:
  \<open>leafHash = Hash(0x00 || leafBytes)\<close>, \<open>nodeHash = Hash(0x01 || left || right)\<close>.
\<close>

definition leafSum :: "(bytes \<Rightarrow> bytes) \<Rightarrow> bytes \<Rightarrow> bytes" where
  "leafSum H data = H (0 # data)"

definition nodeSum :: "(bytes \<Rightarrow> bytes) \<Rightarrow> bytes \<Rightarrow> bytes \<Rightarrow> bytes" where
  "nodeSum H a b = H (1 # a @ b)"

text \<open>
  Modelled from the spec: the tree builder (\<open>New\<close>, \<open>Push\<close>, \<open>PushSubTree\<close>, \<open>Root\<close>).
  A pending subtree is a pair of height and digest; the tree is the stack of pending
  subtrees, most recently pushed first.
\<close>

type_synonym subTree = "nat \<times> bytes"
type_synonym Tree = "subTree list"

definition New :: Tree where
  "New = []"

text \<open>
  Modelled from the spec: the merge cascade. While the two topmost pending entries share
  a height, both are replaced by one entry a level higher whose digest is the node hash
  of the earlier entry and the later entry.
\<close>

function joinAllSubTrees :: "(bytes \<Rightarrow> bytes) \<Rightarrow> Tree \<Rightarrow> Tree" where
  "joinAllSubTrees H [] = []"
| "joinAllSubTrees H [a] = [a]"
| "joinAllSubTrees H ((h1, s1) # (h2, s2) # rest) =
     (if h1 = h2 then joinAllSubTrees H ((Suc h2, nodeSum H s2 s1) # rest)
      else (h1, s1) # (h2, s2) # rest)"
  by pat_completeness auto
termination
  by (relation "measure (\<lambda>(H, t). length t)") auto

text \<open>
  Modelled from the spec: \<open>PushSubTree\<close> fails when the height exceeds the height of the
  topmost pending entry; equal or smaller heights are legal.
\<close>

definition PushSubTree :: "(bytes \<Rightarrow> bytes) \<Rightarrow> nat \<Rightarrow> bytes \<Rightarrow> Tree \<Rightarrow> error + Tree" where
  "PushSubTree H height digest t =
     (case t of
        [] \<Rightarrow> Inr (joinAllSubTrees H [(height, digest)])
      | (h, s) # rest \<Rightarrow>
          if height > h then Inl (ErrHeight height h)
          else Inr (joinAllSubTrees H ((height, digest) # t)))"

text \<open>Modelled from the spec: \<open>Push\<close> hashes the leaf and inserts it at height 0.\<close>

definition Push :: "(bytes \<Rightarrow> bytes) \<Rightarrow> bytes \<Rightarrow> Tree \<Rightarrow> Tree" where
  "Push H data t = joinAllSubTrees H ((0, leafSum H data) # t)"

text \<open>
  Modelled from the spec: \<open>Root\<close> starts from the topmost digest and, moving to the
  bottom, hashes each entry as the left operand. The empty tree has the nil root.
\<close>

definition Root :: "(bytes \<Rightarrow> bytes) \<Rightarrow> Tree \<Rightarrow> bytes option" where
  "Root H t =
     (case t of
        [] \<Rightarrow> None
      | (h, s) # rest \<Rightarrow> Some (fold (\<lambda>(h', s') acc. nodeSum H s' acc) rest s))"

text \<open>A nil slice read as a byte string is empty.\<close>

definition slice_of :: "bytes option \<Rightarrow> bytes" where
  "slice_of r = (case r of None \<Rightarrow> [] | Some b \<Rightarrow> b)"

section \<open>Byte streams\<close>

text \<open>
  An \<open>io.Reader\<close>: the bytes that are still to come and the error the stream ends with
  (\<open>None\<close> for a clean end of file, as a \<open>bytes.Reader\<close> has).
\<close>

datatype reader = Reader bytes "error option"

fun end_err :: "error option \<Rightarrow> error" where
  "end_err None = EOF"
| "end_err (Some e) = e"

text \<open>
  \<open>io.ReadFull(r, buf)\<close> with \<open>len(buf) = L\<close>: the bytes read, the error, and the reader
  afterwards. A short read that ends in \<open>io.EOF\<close> is reported as \<open>io.ErrUnexpectedEOF\<close>.
\<close>

fun ReadFull :: "nat \<Rightarrow> reader \<Rightarrow> (bytes \<times> error option) \<times> reader" where
  "ReadFull L (Reader d f) =
     (if L = 0 then (([], None), Reader d f)
      else if L \<le> length d then ((take L d, None), Reader (drop L d) f)
      else if d = [] then (([], Some (end_err f)), Reader [] f)
      else ((d, Some (if end_err f = EOF then ErrUnexpectedEOF else end_err f)), Reader [] f))"

text \<open>
  \<open>io.CopyN(ioutil.Discard, r, n)\<close>: the number of bytes discarded, the error, and the
  reader afterwards. When the stream ends early the error is \<open>io.EOF\<close>.
\<close>

fun CopyN :: "int \<Rightarrow> reader \<Rightarrow> (int \<times> error option) \<times> reader" where
  "CopyN n (Reader d f) =
     (if n \<le> 0 then ((0, None), Reader d f)
      else if n \<le> int (length d) then ((n, None), Reader (drop (nat n) d) f)
      else ((int (length d), Some (end_err f)), Reader [] f))"

section \<open>Subtree hashers\<close>

text \<open>
  The \<open>SubtreeHasher\<close> interface: two methods on a cursor whose state has type \<open>'s\<close>.
  Each returns its outcome and the state afterwards.
\<close>

record 's SubtreeHasher =
  NextSubtreeRoot :: "int \<Rightarrow> 's \<Rightarrow> bytes result \<times> 's"
  Skip :: "int \<Rightarrow> 's \<Rightarrow> unit result \<times> 's"

subsection \<open>ReaderSubtreeHasher\<close>

text \<open>
  The loop of \<open>ReaderSubtreeHasher.NextSubtreeRoot\<close>, with the number of iterations
  that are left: it returns the tree built, or the error of the stream.
\<close>

fun rsh_loop :: "(bytes \<Rightarrow> bytes) \<Rightarrow> nat \<Rightarrow> nat \<Rightarrow> Tree \<Rightarrow> reader \<Rightarrow> (error + Tree) \<times> reader" where
  "rsh_loop H L 0 tree r = (Inr tree, r)"
| "rsh_loop H L (Suc k) tree r =
     (case ReadFull L r of
        ((buf, err), r') \<Rightarrow>
          (let tree' = (if length buf > 0 then Push H buf tree else tree) in
           if err = Some EOF \<or> err = Some ErrUnexpectedEOF then (Inr tree', r')
           else (case err of
                   Some e \<Rightarrow> (Inl e, r')
                 | None \<Rightarrow> rsh_loop H L k tree' r')))"

definition rsh_NextSubtreeRoot :: "(bytes \<Rightarrow> bytes) \<Rightarrow> nat \<Rightarrow> int \<Rightarrow> reader \<Rightarrow> bytes result \<times> reader" where
  "rsh_NextSubtreeRoot H L subtreeSize r =
     (case rsh_loop H L (nat subtreeSize) New r of
        (Inl e, r') \<Rightarrow> (Err e, r')
      | (Inr tree, r') \<Rightarrow>
          (case Root H tree of
             None \<Rightarrow> (Err EOF, r')
           | Some root \<Rightarrow> (Ok root, r')))"

text \<open>
  Arithmetic on Go's 64-bit \<open>int\<close> and \<open>int64\<close> wraps around: \<open>int64 x\<close> is the
  value a 64-bit signed integer holds after computing \<open>x\<close>.
\<close>

definition int64 :: "int \<Rightarrow> int" where
  "int64 x = signed_take_bit 63 x"

definition rsh_Skip :: "nat \<Rightarrow> int \<Rightarrow> reader \<Rightarrow> unit result \<times> reader" where
  "rsh_Skip L n r =
     (let skipSize = int64 (int L * n) in
      case CopyN skipSize r of
        ((skipped, err), r') \<Rightarrow>
          if err = Some EOF \<or> err = Some ErrUnexpectedEOF then
            (if skipped = skipSize then (Ok (), r') else (Err ErrUnexpectedEOF, r'))
          else (case err of Some e \<Rightarrow> (Err e, r') | None \<Rightarrow> (Ok (), r')))"

definition ReaderSubtreeHasher :: "(bytes \<Rightarrow> bytes) \<Rightarrow> nat \<Rightarrow> reader SubtreeHasher" where
  "ReaderSubtreeHasher H L =
     \<lparr> NextSubtreeRoot = rsh_NextSubtreeRoot H L, Skip = rsh_Skip L \<rparr>"

subsection \<open>CachedSubtreeHasher\<close>

text \<open>
  The loop of \<open>CachedSubtreeHasher.NextSubtreeRoot\<close>, with the number of iterations that
  are left; the state is the list of leaf hashes still to come.
\<close>

fun csh_loop :: "(bytes \<Rightarrow> bytes) \<Rightarrow> nat \<Rightarrow> Tree \<Rightarrow> bytes list \<Rightarrow> (error + Tree) \<times> bytes list" where
  "csh_loop H 0 tree hs = (Inr tree, hs)"
| "csh_loop H (Suc k) tree [] = (Inr tree, [])"
| "csh_loop H (Suc k) tree (x # hs) =
     (case PushSubTree H 0 x tree of
        Inl e \<Rightarrow> (Inl e, x # hs)
      | Inr tree' \<Rightarrow> csh_loop H k tree' hs)"

definition csh_NextSubtreeRoot :: "(bytes \<Rightarrow> bytes) \<Rightarrow> int \<Rightarrow> bytes list \<Rightarrow> bytes result \<times> bytes list" where
  "csh_NextSubtreeRoot H subtreeSize hs =
     (if length hs = 0 then (Err EOF, hs)
      else (case csh_loop H (nat subtreeSize) New hs of
              (Inl e, hs') \<Rightarrow> (Err e, hs')
            | (Inr tree, hs') \<Rightarrow> (Ok (slice_of (Root H tree)), hs')))"

definition csh_Skip :: "int \<Rightarrow> bytes list \<Rightarrow> unit result \<times> bytes list" where
  "csh_Skip n hs =
     (if n > int (length hs) then (Err ErrUnexpectedEOF, hs)
      else if n < 0 then (Panic PanicBounds, hs)
      else (Ok (), drop (nat n) hs))"

definition CachedSubtreeHasher :: "(bytes \<Rightarrow> bytes) \<Rightarrow> bytes list SubtreeHasher" where
  "CachedSubtreeHasher H =
     \<lparr> NextSubtreeRoot = csh_NextSubtreeRoot H, Skip = csh_Skip \<rparr>"

section \<open>BuildRangeProof\<close>

text \<open>
  \<open>1 << uint64(i)\<close> on a 64-bit \<open>int\<close>: the shift wraps to the least integer at
  \<open>i = 63\<close>.
\<close>

definition shl1 :: "nat \<Rightarrow> int" where
  "shl1 i = signed_take_bit 63 (push_bit i 1)"

definition illegal_range :: "int \<Rightarrow> int \<Rightarrow> bool" where
  "illegal_range proofStart proofEnd \<longleftrightarrow>
     proofStart < 0 \<or> proofStart > proofEnd \<or> proofStart = proofEnd"

text \<open>
  The first loop of \<open>BuildRangeProof\<close>: \<open>k\<close> iterations are left, the next exponent is
  \<open>k - 1\<close> (the loop runs \<open>i\<close> from 63 down to 0).
\<close>

fun build_prefix :: "'s SubtreeHasher \<Rightarrow> int \<Rightarrow> nat \<Rightarrow> bytes list \<Rightarrow> 's \<Rightarrow> bytes list result \<times> 's" where
  "build_prefix h proofStart 0 proof s = (Ok proof, s)"
| "build_prefix h proofStart (Suc i) proof s =
     (let subtreeSize = shl1 i in
      if and proofStart subtreeSize \<noteq> 0 then
        (case NextSubtreeRoot h subtreeSize s of
           (Ok root, s') \<Rightarrow> build_prefix h proofStart i (proof @ [root]) s'
         | (Err e, s') \<Rightarrow> (Err e, s')
         | (Panic p, s') \<Rightarrow> (Panic p, s'))
      else build_prefix h proofStart i proof s)"

text \<open>
  The last loop of \<open>BuildRangeProof\<close>: \<open>k\<close> iterations are left, the next exponent is
  \<open>64 - k\<close> (the loop runs \<open>i\<close> from 0 up to 63 and stops at \<open>io.EOF\<close>).
\<close>

fun build_suffix :: "'s SubtreeHasher \<Rightarrow> int \<Rightarrow> nat \<Rightarrow> bytes list \<Rightarrow> 's \<Rightarrow> bytes list result \<times> 's" where
  "build_suffix h endMask 0 proof s = (Ok proof, s)"
| "build_suffix h endMask (Suc k) proof s =
     (let subtreeSize = shl1 (63 - k) in
      if and endMask subtreeSize = 0 then
        (case NextSubtreeRoot h subtreeSize s of
           (Err e, s') \<Rightarrow> if e = EOF then (Ok proof, s') else (Err e, s')
         | (Panic p, s') \<Rightarrow> (Panic p, s')
         | (Ok root, s') \<Rightarrow> build_suffix h endMask k (proof @ [root]) s')
      else build_suffix h endMask k proof s)"

definition BuildRangeProof :: "int \<Rightarrow> int \<Rightarrow> 's SubtreeHasher \<Rightarrow> 's \<Rightarrow> bytes list result \<times> 's" where
  "BuildRangeProof proofStart proofEnd h s =
     (if illegal_range proofStart proofEnd
      then (Panic (PanicMsg ''BuildRangeProof: illegal proof range''), s)
      else
        (case build_prefix h proofStart 64 [] s of
           (Err e, s1) \<Rightarrow> (Err e, s1)
         | (Panic p, s1) \<Rightarrow> (Panic p, s1)
         | (Ok proof, s1) \<Rightarrow>
             (case Skip h (proofEnd - proofStart) s1 of
                (Err e, s2) \<Rightarrow> (Err e, s2)
              | (Panic p, s2) \<Rightarrow> (Panic p, s2)
              | (Ok u, s2) \<Rightarrow> build_suffix h (proofEnd - 1) 64 proof s2)))"

section \<open>Leaf hashers\<close>

datatype LeafHasher = ReaderLeafHasher reader nat | CachedLeafHasher "bytes list"

fun NextLeafHash :: "(bytes \<Rightarrow> bytes) \<Rightarrow> LeafHasher \<Rightarrow> bytes result \<times> LeafHasher" where
  "NextLeafHash H (ReaderLeafHasher r L) =
     (case ReadFull L r of
        ((buf, err), r') \<Rightarrow>
          if err \<noteq> None \<and> err \<noteq> Some EOF \<and> err \<noteq> Some ErrUnexpectedEOF
          then (Err (end_err err), ReaderLeafHasher r' L)
          else if length buf = 0 then (Err EOF, ReaderLeafHasher r' L)
          else (Ok (leafSum H buf), ReaderLeafHasher r' L))"
| "NextLeafHash H (CachedLeafHasher []) = (Err EOF, CachedLeafHasher [])"
| "NextLeafHash H (CachedLeafHasher (x # hs)) = (Ok x, CachedLeafHasher hs)"

text \<open>The measure under which a leaf hasher shrinks each time it returns a leaf.\<close>

fun lh_size :: "LeafHasher \<Rightarrow> nat" where
  "lh_size (ReaderLeafHasher (Reader d f) L) = length d"
| "lh_size (CachedLeafHasher hs) = length hs"

section \<open>VerifyRangeProof\<close>

text \<open>
  The first loop of \<open>VerifyRangeProof\<close>: \<open>k\<close> iterations are left, the next exponent
  is \<open>k - 1\<close>. It returns the tree and the proof entries not yet consumed; an error of
  \<open>PushSubTree\<close> is a panic here.
\<close>

fun verify_prefix :: "(bytes \<Rightarrow> bytes) \<Rightarrow> int \<Rightarrow> nat \<Rightarrow> bytes list \<Rightarrow> Tree \<Rightarrow> (Tree \<times> bytes list) result" where
  "verify_prefix H proofStart 0 proof tree = Ok (tree, proof)"
| "verify_prefix H proofStart (Suc i) [] tree = Ok (tree, [])"
| "verify_prefix H proofStart (Suc i) (p0 # rest) tree =
     (if and proofStart (shl1 i) \<noteq> 0 then
        (case PushSubTree H i p0 tree of
           Inl e \<Rightarrow> Panic (PanicErr e)
         | Inr tree' \<Rightarrow> verify_prefix H proofStart i rest tree')
      else verify_prefix H proofStart i (p0 # rest) tree)"

text \<open>The middle loop of \<open>VerifyRangeProof\<close>: it drains the leaf hasher.\<close>

function verify_leaves :: "(bytes \<Rightarrow> bytes) \<Rightarrow> LeafHasher \<Rightarrow> Tree \<Rightarrow> Tree result" where
  "verify_leaves H lh tree =
     (case NextLeafHash H lh of
        (Err e, lh') \<Rightarrow> if e = EOF then Ok tree else Err e
      | (Panic p, lh') \<Rightarrow> Panic p
      | (Ok leafHash, lh') \<Rightarrow>
          (case PushSubTree H 0 leafHash tree of
             Inl e \<Rightarrow> Panic (PanicErr e)
           | Inr tree' \<Rightarrow> verify_leaves H lh' tree'))"
  by pat_completeness auto
termination
proof (relation "measure (\<lambda>(H, lh, tree). lh_size lh)")
  show "wf (measure (\<lambda>(H, lh, tree). lh_size lh))" by simp
next
  fix H :: "bytes \<Rightarrow> bytes" and lh :: LeafHasher and tree :: Tree
    and x :: "bytes result" and lh' :: LeafHasher and leafHash :: bytes and tree' :: Tree
  assume a: "(x, lh') = NextLeafHash H lh" and b: "x = Ok leafHash"
  have "lh_size lh' < lh_size lh"
  proof (cases lh)
    case (ReaderLeafHasher r L)
    obtain d f where r: "r = Reader d f" by (cases r)
    from a b show ?thesis
      unfolding ReaderLeafHasher r
      by (auto split: if_splits)
  next
    case (CachedLeafHasher hs)
    from a b show ?thesis
      unfolding CachedLeafHasher
      by (cases hs) auto
  qed
  then show "((H, lh', tree'), (H, lh, tree)) \<in> measure (\<lambda>(H, lh, tree). lh_size lh)"
    by simp
qed

declare verify_leaves.simps [simp del]

text \<open>
  The last loop of \<open>VerifyRangeProof\<close>: \<open>k\<close> iterations are left, the next exponent is
  \<open>64 - k\<close>. An error of \<open>PushSubTree\<close> is returned.
\<close>

fun verify_suffix :: "(bytes \<Rightarrow> bytes) \<Rightarrow> int \<Rightarrow> nat \<Rightarrow> bytes list \<Rightarrow> Tree \<Rightarrow> (Tree \<times> bytes list) result" where
  "verify_suffix H endMask 0 proof tree = Ok (tree, proof)"
| "verify_suffix H endMask (Suc k) [] tree = Ok (tree, [])"
| "verify_suffix H endMask (Suc k) (p0 # rest) tree =
     (if and endMask (shl1 (63 - k)) = 0 then
        (case PushSubTree H (63 - k) p0 tree of
           Inl e \<Rightarrow> Err e
         | Inr tree' \<Rightarrow> verify_suffix H endMask k rest tree')
      else verify_suffix H endMask k (p0 # rest) tree)"

definition VerifyRangeProof :: "LeafHasher \<Rightarrow> (bytes \<Rightarrow> bytes) \<Rightarrow> int \<Rightarrow> int \<Rightarrow> bytes list \<Rightarrow> bytes \<Rightarrow> bool result" where
  "VerifyRangeProof lh H proofStart proofEnd proof root =
     (if illegal_range proofStart proofEnd
      then Panic (PanicMsg ''VerifyRangeProof: illegal proof range'')
      else
        (case verify_prefix H proofStart 64 proof New of
           Panic p \<Rightarrow> Panic p
         | Err e \<Rightarrow> Err e
         | Ok (tree1, proof1) \<Rightarrow>
             (case verify_leaves H lh tree1 of
                Panic p \<Rightarrow> Panic p
              | Err e \<Rightarrow> Err e
              | Ok tree2 \<Rightarrow>
                  (case verify_suffix H (proofEnd - 1) 64 proof1 tree2 of
                     Panic p \<Rightarrow> Panic p
                   | Err e \<Rightarrow> Err e
                   | Ok (tree3, proof3) \<Rightarrow> Ok (slice_of (Root H tree3) = root)))))"

section \<open>The precalculated-root decorator\<close>





section \<open>Roots of leaf sequences\<close>

text \<open>
  Modelled from the spec: \<open>ReaderRoot\<close> pushes every leaf of the stream (the last one
  may be short) and returns the root. \<open>leaves L d\<close> cuts a byte string into leaves of
  size \<open>L\<close>.
\<close>

function leaves :: "nat \<Rightarrow> bytes \<Rightarrow> bytes list" where
  "leaves L d = (if L = 0 \<or> d = [] then [] else take L d # leaves L (drop L d))"
  by pat_completeness auto
termination
  by (relation "measure (\<lambda>(L, d). length d)") auto

declare leaves.simps [simp del]

definition ReaderRoot :: "(bytes \<Rightarrow> bytes) \<Rightarrow> nat \<Rightarrow> bytes \<Rightarrow> bytes option" where
  "ReaderRoot H L d = Root H (fold (Push H) (leaves L d) New)"

text \<open>The root of a tree whose leaf hashes are given: each is pushed at height 0.\<close>

definition pushLeafHash :: "(bytes \<Rightarrow> bytes) \<Rightarrow> bytes \<Rightarrow> Tree \<Rightarrow> Tree" where
  "pushLeafHash H x t = joinAllSubTrees H ((0, x) # t)"

definition CachedRoot :: "(bytes \<Rightarrow> bytes) \<Rightarrow> bytes list \<Rightarrow> bytes option" where
  "CachedRoot H hs = Root H (fold (pushLeafHash H) hs New)"

section \<open>Recording the cursor operations\<close>

text \<open>
  A SubtreeHasher that behaves as the one it wraps and appends every call it receives to
  a log kept beside the wrapped state.
\<close>

datatype cursor_op = OpNextSubtreeRoot int | OpSkip int

definition traced :: "'s SubtreeHasher \<Rightarrow> ('s \<times> cursor_op list) SubtreeHasher" where
  "traced h =
     \<lparr> NextSubtreeRoot = (\<lambda>n (s, tr).
         case NextSubtreeRoot h n s of (r, s') \<Rightarrow> (r, (s', tr @ [OpNextSubtreeRoot n]))),
       Skip = (\<lambda>n (s, tr).
         case Skip h n s of (r, s') \<Rightarrow> (r, (s', tr @ [OpSkip n]))) \<rparr>"

text \<open>
  The calls of the first loop when \<open>k\<close> iterations are left, and of the last loop when
  \<open>k\<close> iterations are left and the cursor never reports the end of the stream.
\<close>

definition prefix_ops :: "int \<Rightarrow> nat \<Rightarrow> cursor_op list" where
  "prefix_ops proofStart k =
     map (\<lambda>i. OpNextSubtreeRoot (shl1 i)) (filter (\<lambda>i. and proofStart (shl1 i) \<noteq> 0) (rev [0..<k]))"

definition suffix_ops :: "int \<Rightarrow> nat \<Rightarrow> cursor_op list" where
  "suffix_ops endMask k =
     map (\<lambda>i. OpNextSubtreeRoot (shl1 i)) (filter (\<lambda>i. and endMask (shl1 i) = 0) [64 - k..<64])"

text \<open>
  The pattern in terms of the bits of \<open>start\<close> and \<open>end - 1\<close>: powers of two for the set
  bits of \<open>start\<close>, highest first, one \<open>Skip\<close>, powers of two for the clear bits of
  \<open>end - 1\<close> below bit 63, lowest first, and the wrapped shift of bit 63.
\<close>

definition cursor_pattern :: "int \<Rightarrow> int \<Rightarrow> cursor_op list" where
  "cursor_pattern proofStart proofEnd =
     map (\<lambda>i. OpNextSubtreeRoot (2 ^ i)) (filter (\<lambda>i. bit proofStart i) (rev [0..<63]))
     @ [OpSkip (proofEnd - proofStart)]
     @ map (\<lambda>i. OpNextSubtreeRoot (2 ^ i)) (filter (\<lambda>i. \<not> bit (proofEnd - 1) i) [0..<63])
     @ [OpNextSubtreeRoot (- (2 ^ 63))]"

text \<open>
  Carrying out a list of cursor operations one after the other until one of them does
  not return a value with a nil error: the operations carried out (the failing one
  included), whether all of them succeeded, and the state afterwards.
\<close>

fun op_ok :: "'s SubtreeHasher \<Rightarrow> cursor_op \<Rightarrow> 's \<Rightarrow> bool \<times> 's" where
  "op_ok h (OpNextSubtreeRoot n) s =
     (case NextSubtreeRoot h n s of
        (Ok r, s') \<Rightarrow> (True, s') | (Err e, s') \<Rightarrow> (False, s') | (Panic p, s') \<Rightarrow> (False, s'))"
| "op_ok h (OpSkip n) s =
     (case Skip h n s of
        (Ok u, s') \<Rightarrow> (True, s') | (Err e, s') \<Rightarrow> (False, s') | (Panic p, s') \<Rightarrow> (False, s'))"

fun performed :: "'s SubtreeHasher \<Rightarrow> cursor_op list \<Rightarrow> 's \<Rightarrow> cursor_op list \<times> bool \<times> 's" where
  "performed h [] s = ([], True, s)"
| "performed h (c # cs) s =
     (case op_ok h c s of
        (True, s') \<Rightarrow> (case performed h cs s' of (d, ok, s'') \<Rightarrow> (c # d, ok, s''))
      | (False, s') \<Rightarrow> ([c], False, s'))"

section \<open>The proof as a list of segment roots\<close>

text \<open>
  The root of the leaves \<open>[a, a + n)\<close> of a leaf-hash list, computed on its own by pushing
  them into a fresh tree.
\<close>

definition segment_root :: "(bytes \<Rightarrow> bytes) \<Rightarrow> bytes list \<Rightarrow> nat \<Rightarrow> nat \<Rightarrow> bytes" where
  "segment_root H hs a n = slice_of (CachedRoot H (take n (drop a hs)))"

text \<open>
  \<open>round_down s i\<close> clears the low \<open>i\<close> bits of \<open>s\<close>; \<open>round_up e i\<close> is the least multiple
  of \<open>2^i\<close> above \<open>e\<close>.
\<close>

definition round_down :: "nat \<Rightarrow> nat \<Rightarrow> nat" where
  "round_down s i = (s div 2 ^ i) * 2 ^ i"

definition round_up :: "nat \<Rightarrow> nat \<Rightarrow> nat" where
  "round_up e i = (e div 2 ^ i + 1) * 2 ^ i"

text \<open>
  The entries a proof for \<open>[start, end)\<close> over the leaf hashes \<open>hs\<close> consists of: for
  every set bit \<open>j\<close> of \<open>start\<close>, highest first, the root of the \<open>2^j\<close> leaves that begin
  where the higher bits of \<open>start\<close> point; for every clear bit \<open>j\<close> of \<open>e = end - 1\<close>,
  lowest first, the root of the at most \<open>2^j\<close> leaves that begin at \<open>round_up e j\<close>, as long
  as that position lies inside the tree.
\<close>

definition prefix_entries :: "(bytes \<Rightarrow> bytes) \<Rightarrow> bytes list \<Rightarrow> nat \<Rightarrow> nat \<Rightarrow> bytes list" where
  "prefix_entries H hs s k =
     map (\<lambda>j. segment_root H hs (round_down s (Suc j)) (2 ^ j)) (filter (\<lambda>j. bit s j) (rev [0..<k]))"

definition suffix_entries :: "(bytes \<Rightarrow> bytes) \<Rightarrow> bytes list \<Rightarrow> nat \<Rightarrow> nat \<Rightarrow> bytes list" where
  "suffix_entries H hs e i =
     map (\<lambda>j. segment_root H hs (round_up e j) (2 ^ j))
       (filter (\<lambda>j. \<not> bit e j \<and> round_up e j < length hs) [i..<63])"

definition range_proof :: "(bytes \<Rightarrow> bytes) \<Rightarrow> bytes list \<Rightarrow> nat \<Rightarrow> nat \<Rightarrow> bytes list" where
  "range_proof H hs s e = prefix_entries H hs s 63 @ suffix_entries H hs (e - 1) 0"

text \<open>
  The leaf hashes a stream still holds, and whether it ends without an error.
\<close>

fun reader_hashes :: "(bytes \<Rightarrow> bytes) \<Rightarrow> nat \<Rightarrow> reader \<Rightarrow> bytes list" where
  "reader_hashes H L (Reader d f) = map (leafSum H) (leaves L d)"

fun clean_end :: "reader \<Rightarrow> bool" where
  "clean_end (Reader d f) \<longleftrightarrow> f = None"

text \<open>
  The root of the leaves \<open>[a, a + n)\<close> of a stream, computed on its own from the bytes
  \<open>[a * L, (a + n) * L)\<close>.
\<close>

definition stream_segment_root :: "(bytes \<Rightarrow> bytes) \<Rightarrow> nat \<Rightarrow> bytes \<Rightarrow> nat \<Rightarrow> nat \<Rightarrow> bytes" where
  "stream_segment_root H L d a n = slice_of (ReaderRoot H L (take (n * L) (drop (a * L) d)))"

section \<open>What the verifier replays\<close>








section \<open>Counting bits\<close>

text \<open>The number of binary digits of \<open>n\<close>.\<close>

fun bitlen :: "nat \<Rightarrow> nat" where
  "bitlen n = (if n = 0 then 0 else Suc (bitlen (n div 2)))"

declare bitlen.simps [simp del]

text \<open>
  The bit width of a tree of \<open>N\<close> leaves: the number of bits needed to write the largest
  leaf index \<open>N - 1\<close>.
\<close>

definition tree_width :: "nat \<Rightarrow> nat" where
  "tree_width N = bitlen (N - 1)"

definition set_bits :: "nat \<Rightarrow> nat \<Rightarrow> nat" where
  "set_bits w x = length (filter (\<lambda>i. bit x i) [0..<w])"

definition clear_bits :: "nat \<Rightarrow> nat \<Rightarrow> nat" where
  "clear_bits w x = length (filter (\<lambda>i. \<not> bit x i) [0..<w])"

section \<open>Panics\<close>


lemma shl1_lt63: "i < 63 \<Longrightarrow> shl1 i = 2 ^ i"
proof -
  assume "i < 63"
  then have "(2::int) ^ i < 2 ^ 63" by (rule power_strict_increasing) simp
  moreover have "- ((2::int) ^ 63) \<le> 2 ^ i" by (rule order_trans[of _ 0]) simp_all
  ultimately show ?thesis
    unfolding shl1_def by (simp add: signed_take_bit_int_eq_self_iff)
qed

lemma NextLeafHash_no_panic: "\<not> is_Panic (fst (NextLeafHash H lh))"
proof (cases lh)
  case (ReaderLeafHasher r L)
  then show ?thesis by (cases r) (auto split: if_splits)
next
  case (CachedLeafHasher hs)
  then show ?thesis by (cases hs) auto
qed


lemma PushSubTree_0: "\<exists>t'. PushSubTree H 0 x t = Inr t'"
  by (auto simp: PushSubTree_def split: list.splits)

lemma PushSubTree_0_eq: "PushSubTree H 0 x t = Inr (pushLeafHash H x t)"
  by (auto simp: PushSubTree_def pushLeafHash_def split: list.splits)

lemma verify_leaves_no_panic: "\<not> is_Panic (verify_leaves H lh tree)"
proof (induction H lh tree rule: verify_leaves.induct)
  case (1 H lh tree)
  show ?case
    apply (subst verify_leaves.simps)
    using 1 NextLeafHash_no_panic[of H lh]
    by (auto split: prod.splits result.splits sum.splits simp: PushSubTree_0_eq)
qed

lemma verify_prefix_no_panic:
  "\<forall>(h, s) \<in> set tree. k \<le> h \<Longrightarrow> \<not> is_Panic (verify_prefix H ps k proof tree)"
proof (induction k arbitrary: "proof" tree)
  case 0
  then show ?case by simp
next
  case (Suc i)
  show ?case
  proof (cases "proof")
    case Nil
    then show ?thesis by simp
  next
    case (Cons p0 rest)
    show ?thesis
    proof (cases "and ps (shl1 i) \<noteq> 0")
      case True
      have push: "PushSubTree H i p0 tree = Inr ((i, p0) # tree)"
        using Suc.prems by (cases tree) (auto simp: PushSubTree_def)
      have "\<forall>(h, s) \<in> set ((i, p0) # tree). i \<le> h"
        using Suc.prems by auto
      from Suc.IH[OF this] show ?thesis
        using True Cons push by simp
    next
      case False
      have "\<forall>(h, s) \<in> set tree. i \<le> h" using Suc.prems by auto
      from Suc.IH[OF this] show ?thesis using False Cons by simp
    qed
  qed
qed

lemma verify_suffix_no_panic: "\<not> is_Panic (verify_suffix H em k proof tree)"
  by (induction H em k "proof" tree rule: verify_suffix.induct) (auto split: sum.splits)

lemma is_Panic_iff: "is_Panic r \<longleftrightarrow> (\<exists>p. r = Panic p)"
  by (cases r) auto

lemma VerifyRangeProof_panic_iff:
  "is_Panic (VerifyRangeProof lh H proofStart proofEnd proof root) \<longleftrightarrow> illegal_range proofStart proofEnd"
proof -
  have a: "\<not> is_Panic (verify_prefix H proofStart 64 proof New)"
    by (rule verify_prefix_no_panic) (simp add: New_def)
  show ?thesis
    unfolding VerifyRangeProof_def
    using a verify_leaves_no_panic[of H lh] verify_suffix_no_panic[of H "proofEnd - 1" 64]
    by (auto simp: is_Panic_iff split: result.splits prod.splits)
qed

lemma build_prefix_no_panic:
  "(\<And>n s. \<not> is_Panic (fst (NextSubtreeRoot h n s))) \<Longrightarrow>
   \<not> is_Panic (fst (build_prefix h ps k proof s))"
proof (induction k arbitrary: "proof" s)
  case 0
  then show ?case by simp
next
  case (Suc i)
  have np: "\<not> is_Panic (fst (NextSubtreeRoot h (shl1 i) s))" by (rule Suc.prems)
  show ?case
    using np Suc.IH[OF Suc.prems]
    by (auto simp: Let_def split: prod.splits result.splits)
qed

lemma build_suffix_no_panic:
  "(\<And>n s. \<not> is_Panic (fst (NextSubtreeRoot h n s))) \<Longrightarrow>
   \<not> is_Panic (fst (build_suffix h em k proof s))"
proof (induction k arbitrary: "proof" s)
  case 0
  then show ?case by simp
next
  case (Suc k)
  have np: "\<not> is_Panic (fst (NextSubtreeRoot h (shl1 (63 - k)) s))" by (rule Suc.prems)
  show ?case
    using np Suc.IH[OF Suc.prems]
    by (auto simp: Let_def split: prod.splits result.splits)
qed

lemma BuildRangeProof_panic_iff:
  assumes "\<And>n s. \<not> is_Panic (fst (NextSubtreeRoot h n s))"
    and "\<And>n s. 0 < n \<Longrightarrow> \<not> is_Panic (fst (Skip h n s))"
  shows "is_Panic (fst (BuildRangeProof proofStart proofEnd h s)) \<longleftrightarrow> illegal_range proofStart proofEnd"
proof (cases "illegal_range proofStart proofEnd")
  case True
  then show ?thesis by (simp add: BuildRangeProof_def)
next
  case False
  then have pos: "0 < proofEnd - proofStart" by (auto simp: illegal_range_def)
  obtain r1 s1 where p: "build_prefix h proofStart 64 [] s = (r1, s1)" by force
  have np1: "\<not> is_Panic r1" using build_prefix_no_panic[of h proofStart 64 "[]" s] assms(1) p by simp
  show ?thesis
  proof (cases r1)
    case (Ok pf)
    obtain r2 s2 where sk: "Skip h (proofEnd - proofStart) s1 = (r2, s2)" by force
    have np2: "\<not> is_Panic r2" using assms(2)[OF pos, of s1] sk by simp
    show ?thesis
    proof (cases r2)
      case (Ok u)
      have "\<not> is_Panic (fst (build_suffix h (proofEnd - 1) 64 pf s2))"
        by (rule build_suffix_no_panic) (rule assms(1))
      then show ?thesis using False p \<open>r1 = Ok pf\<close> sk Ok
        by (simp add: BuildRangeProof_def)
    next
      case (Err e)
      then show ?thesis using False p \<open>r1 = Ok pf\<close> sk by (simp add: BuildRangeProof_def)
    next
      case (Panic x)
      then show ?thesis using np2 by simp
    qed
  next
    case (Err e)
    then show ?thesis using False p by (simp add: BuildRangeProof_def)
  next
    case (Panic x)
    then show ?thesis using np1 by simp
  qed
qed

lemma csh_loop_Inr: "\<exists>t hs'. csh_loop H k tree hs = (Inr t, hs')"
  by (induction H k tree hs rule: csh_loop.induct) (auto simp: PushSubTree_0_eq)

lemma csh_NextSubtreeRoot_no_panic: "\<not> is_Panic (fst (NextSubtreeRoot (CachedSubtreeHasher H) n hs))"
  using csh_loop_Inr[of H "nat n" New hs]
  by (auto simp: CachedSubtreeHasher_def csh_NextSubtreeRoot_def)

lemma csh_Skip_no_panic: "0 < n \<Longrightarrow> \<not> is_Panic (fst (Skip (CachedSubtreeHasher H) n hs))"
  by (auto simp: CachedSubtreeHasher_def csh_Skip_def)

lemma rsh_NextSubtreeRoot_no_panic: "\<not> is_Panic (fst (NextSubtreeRoot (ReaderSubtreeHasher H L) n r))"
  by (auto simp: ReaderSubtreeHasher_def rsh_NextSubtreeRoot_def split: prod.splits sum.splits option.splits)

lemma rsh_Skip_no_panic: "\<not> is_Panic (fst (Skip (ReaderSubtreeHasher H L) n r))"
  by (auto simp: ReaderSubtreeHasher_def rsh_Skip_def Let_def split: prod.splits option.splits)


lemma leaves_Nil [simp]: "leaves L [] = []"
  by (simp add: leaves.simps)

lemma leaves_0 [simp]: "leaves 0 d = []"
  by (simp add: leaves.simps)

lemma leaves_Cons: "0 < L \<Longrightarrow> d \<noteq> [] \<Longrightarrow> leaves L d = take L d # leaves L (drop L d)"
  by (subst leaves.simps) simp

lemma length_leaves: "0 < L \<Longrightarrow> length (leaves L d) = (length d + L - 1) div L"
proof (induction L d rule: leaves.induct)
  case (1 L d)
  show ?case
  proof (cases "d = []")
    case True
    then show ?thesis using 1(2) by simp
  next
    case False
    have ih: "length (leaves L (drop L d)) = (length (drop L d) + L - 1) div L"
      using 1 False by simp
    show ?thesis
    proof (cases "length d \<le> L")
      case True
      then have "(length d + L - 1) div L = 1"
        using False 1(2) by (cases d) (auto simp: div_eq_dividend_iff Suc_le_eq div_nat_eqI)
      then show ?thesis using True False 1(2) by (simp add: leaves_Cons)
    next
      case False
      then have "length d + L - 1 = (length d - L + L - 1) + L" using 1(2) by simp
      then have "(length d + L - 1) div L = Suc ((length d - L + L - 1) div L)"
        using 1(2) by (metis div_add_self2 less_numeral_extra(3) Suc_eq_plus1)
      then show ?thesis using ih \<open>d \<noteq> []\<close> 1(2) by (simp add: leaves_Cons)
    qed
  qed
qed

lemma csh_Skip_short:
  "int (length hs) < n \<Longrightarrow> Skip (CachedSubtreeHasher H) n hs = (Err ErrUnexpectedEOF, hs)"
  by (simp add: CachedSubtreeHasher_def csh_Skip_def)

lemma csh_Skip_enough:
  "0 \<le> n \<Longrightarrow> n \<le> int (length hs) \<Longrightarrow>
   Skip (CachedSubtreeHasher H) n hs = (Ok (), drop (nat n) hs)"
  by (simp add: CachedSubtreeHasher_def csh_Skip_def)

lemma int64_id: "- (2 ^ 63) \<le> x \<Longrightarrow> x < 2 ^ 63 \<Longrightarrow> int64 x = x"
  unfolding int64_def by (simp add: signed_take_bit_int_eq_self_iff)

lemma rsh_Skip_short:
  "0 < L \<Longrightarrow> int (length (leaves L d)) < n \<Longrightarrow> int L * n < 2 ^ 63 \<Longrightarrow>
   Skip (ReaderSubtreeHasher H L) n (Reader d None) = (Err ErrUnexpectedEOF, Reader [] None)"
proof -
  assume L: "0 < L" and n: "int (length (leaves L d)) < n" and b: "int L * n < 2 ^ 63"
  have "(length d + L - 1) div L < nat n" using n L by (simp add: length_leaves)
  then have "length d + L - 1 < nat n * L" using L
    by (simp add: div_less_iff_less_mult)
  then have "length d < L * nat n" using L by (simp add: mult.commute)
  then have "int (length d) < int L * n" using n
    by (metis int_nat_eq less_le_not_le of_nat_0_le_iff of_nat_less_iff of_nat_mult order_le_less_trans)
  moreover have p: "0 < int L * n" using L n
    by (meson of_nat_0_le_iff of_nat_0_less_iff order_le_less_trans zero_less_mult_iff)
  moreover have "int64 (int L * n) = int L * n"
    by (rule int64_id) (use p b in simp_all)
  ultimately show ?thesis
    by (simp add: ReaderSubtreeHasher_def rsh_Skip_def)
qed

lemma rsh_Skip_whole:
  assumes "0 \<le> n" and "int L * n \<le> int (length d)" and "int L * n < 2 ^ 63"
  shows "Skip (ReaderSubtreeHasher H L) n (Reader d f) = (Ok (), Reader (drop (L * nat n) d) f)"
proof -
  have "0 \<le> int L * n" using assms(1) by simp
  then have "int64 (int L * n) = int L * n"
    using assms(3) by (intro int64_id) simp_all
  then show ?thesis
    using assms(1,2)
    by (auto simp: ReaderSubtreeHasher_def rsh_Skip_def Let_def nat_mult_distrib mult_le_0_iff)
qed

section \<open>The cursor operations of BuildRangeProof\<close>

lemma traced_Next:
  "NextSubtreeRoot (traced h) n (s, tr) =
     (fst (NextSubtreeRoot h n s), (snd (NextSubtreeRoot h n s), tr @ [OpNextSubtreeRoot n]))"
  by (simp add: traced_def split: prod.splits)

lemma traced_Skip:
  "Skip (traced h) n (s, tr) = (fst (Skip h n s), (snd (Skip h n s), tr @ [OpSkip n]))"
  by (simp add: traced_def split: prod.splits)

lemma prefix_ops_0 [simp]: "prefix_ops ps 0 = []"
  by (simp add: prefix_ops_def)

lemma prefix_ops_Suc:
  "prefix_ops ps (Suc i) =
     (if and ps (shl1 i) \<noteq> 0 then OpNextSubtreeRoot (shl1 i) # prefix_ops ps i else prefix_ops ps i)"
  by (simp add: prefix_ops_def)

lemma suffix_ops_0 [simp]: "suffix_ops em 0 = []"
  by (simp add: suffix_ops_def)

lemma suffix_ops_Suc:
  "k < 64 \<Longrightarrow> suffix_ops em (Suc k) =
     (if and em (shl1 (63 - k)) = 0 then OpNextSubtreeRoot (shl1 (63 - k)) # suffix_ops em k
      else suffix_ops em k)"
proof -
  assume k: "k < 64"
  have a: "64 - Suc k = 63 - k" by simp
  have b: "Suc (63 - k) = 64 - k" using k by simp
  have "63 - k < 64" by simp
  then have "[63 - k..<64] = (63 - k) # [Suc (63 - k)..<64]" by (rule upt_conv_Cons)
  then have "[64 - Suc k..<64] = (63 - k) # [64 - k..<64]" using a b by simp
  then show ?thesis by (simp add: suffix_ops_def)
qed

lemma build_prefix_traced:
  "\<exists>ops. build_prefix (traced h) ps k pf (s, tr)
           = (fst (build_prefix h ps k pf s), (snd (build_prefix h ps k pf s), tr @ ops))
         \<and> prefix ops (prefix_ops ps k)
         \<and> ((\<exists>p. fst (build_prefix h ps k pf s) = Ok p) \<longrightarrow> ops = prefix_ops ps k)"
proof (induction k arbitrary: pf s tr)
  case 0
  then show ?case by simp
next
  case (Suc i)
  show ?case
  proof (cases "and ps (shl1 i) \<noteq> 0")
    case False
    then show ?thesis using Suc.IH[of pf s tr] by (simp add: prefix_ops_Suc)
  next
    case True
    obtain r s' where nx: "NextSubtreeRoot h (shl1 i) s = (r, s')" by force
    show ?thesis
    proof (cases r)
      case (Ok root)
      from Suc.IH[of "pf @ [root]" s' "tr @ [OpNextSubtreeRoot (shl1 i)]"]
      obtain ops where
        a: "build_prefix (traced h) ps i (pf @ [root]) (s', tr @ [OpNextSubtreeRoot (shl1 i)])
            = (fst (build_prefix h ps i (pf @ [root]) s'),
               (snd (build_prefix h ps i (pf @ [root]) s'), (tr @ [OpNextSubtreeRoot (shl1 i)]) @ ops))"
        and b: "prefix ops (prefix_ops ps i)"
        and c: "(\<exists>p. fst (build_prefix h ps i (pf @ [root]) s') = Ok p) \<longrightarrow> ops = prefix_ops ps i"
        by blast
      show ?thesis
        apply (rule exI[of _ "OpNextSubtreeRoot (shl1 i) # ops"])
        using True nx Ok a b c by (simp add: traced_Next prefix_ops_Suc)
    next
      case (Err e)
      show ?thesis
        apply (rule exI[of _ "[OpNextSubtreeRoot (shl1 i)]"])
        using True nx Err by (simp add: traced_Next prefix_ops_Suc)
    next
      case (Panic p)
      show ?thesis
        apply (rule exI[of _ "[OpNextSubtreeRoot (shl1 i)]"])
        using True nx Panic by (simp add: traced_Next prefix_ops_Suc)
    qed
  qed
qed

lemma build_suffix_traced:
  "k \<le> 64 \<Longrightarrow> \<exists>ops. build_suffix (traced h) em k pf (s, tr)
           = (fst (build_suffix h em k pf s), (snd (build_suffix h em k pf s), tr @ ops))
         \<and> prefix ops (suffix_ops em k)"
proof (induction k arbitrary: pf s tr)
  case 0
  then show ?case by simp
next
  case (Suc k)
  then have k: "k < 64" "k \<le> 64" by simp_all
  show ?case
  proof (cases "and em (shl1 (63 - k)) = 0")
    case False
    then show ?thesis using Suc.IH[OF k(2), of pf s tr] k(1) by (simp add: suffix_ops_Suc)
  next
    case True
    obtain r s' where nx: "NextSubtreeRoot h (shl1 (63 - k)) s = (r, s')" by force
    show ?thesis
    proof (cases r)
      case (Ok root)
      from Suc.IH[OF k(2), of "pf @ [root]" s' "tr @ [OpNextSubtreeRoot (shl1 (63 - k))]"]
      obtain ops where
        a: "build_suffix (traced h) em k (pf @ [root]) (s', tr @ [OpNextSubtreeRoot (shl1 (63 - k))])
            = (fst (build_suffix h em k (pf @ [root]) s'),
               (snd (build_suffix h em k (pf @ [root]) s'), (tr @ [OpNextSubtreeRoot (shl1 (63 - k))]) @ ops))"
        and b: "prefix ops (suffix_ops em k)"
        by blast
      show ?thesis
        apply (rule exI[of _ "OpNextSubtreeRoot (shl1 (63 - k)) # ops"])
        using True nx Ok a b k(1) by (simp add: traced_Next suffix_ops_Suc)
    next
      case (Err e)
      show ?thesis
        apply (rule exI[of _ "[OpNextSubtreeRoot (shl1 (63 - k))]"])
        using True nx Err k(1) by (simp add: traced_Next suffix_ops_Suc)
    next
      case (Panic p)
      show ?thesis
        apply (rule exI[of _ "[OpNextSubtreeRoot (shl1 (63 - k))]"])
        using True nx Panic k(1) by (simp add: traced_Next suffix_ops_Suc)
    qed
  qed
qed

lemma shl1_63: "shl1 63 = - (2 ^ 63)"
  unfolding shl1_def by (simp add: signed_take_bit_eq_take_bit_minus)

lemma and_shl1_bit: "i < 63 \<Longrightarrow> and x (shl1 i) \<noteq> 0 \<longleftrightarrow> bit x i"
  by (simp add: shl1_lt63 and_exp_eq_0_iff_not_bit)

lemma high_bits_clear:
  assumes "0 \<le> (x::int)" and "x < 2 ^ m" and "m \<le> n"
  shows "\<not> bit x n"
proof -
  have le: "(2::int) ^ m \<le> 2 ^ n" using assms(3) by (simp add: power_increasing)
  have "x < 2 ^ n" using assms(2) le by (rule less_le_trans)
  then have "x div 2 ^ n = 0" using assms(1) by simp
  then show ?thesis by (simp add: bit_iff_odd)
qed

lemma and_minus_exp_0:
  assumes "0 \<le> (x::int)" and "x < 2 ^ m"
  shows "and x (- (2 ^ m)) = 0"
proof (rule bit_eqI)
  fix n
  show "bit (and x (- (2 ^ m))) n = bit (0::int) n"
    using high_bits_clear[OF assms, of n]
    by (auto simp: bit_and_iff bit_minus_exp_iff)
qed

lemma and_shl1_63: "0 \<le> (x::int) \<Longrightarrow> x < 2 ^ 63 \<Longrightarrow> and x (shl1 63) = 0"
  unfolding shl1_63 by (rule and_minus_exp_0)

lemma prefix_ops_64:
  assumes "0 \<le> ps" and "ps < 2 ^ 63"
  shows "prefix_ops ps 64 =
     map (\<lambda>i. OpNextSubtreeRoot (2 ^ i)) (filter (\<lambda>i. bit ps i) (rev [0..<63]))"
proof -
  have a: "[0..<64] = [0..<63] @ [63]"
    by (metis upt_Suc_append zero_le Suc_numeral semiring_norm(2,8))
  have b: "filter (\<lambda>i. and ps (shl1 i) \<noteq> 0) (rev [0..<63]) = filter (\<lambda>i. bit ps i) (rev [0..<63])"
    by (rule filter_cong) (auto simp: and_shl1_bit)
  have c: "map (\<lambda>i. OpNextSubtreeRoot (shl1 i)) (filter (\<lambda>i. bit ps i) (rev [0..<63]))
         = map (\<lambda>i. OpNextSubtreeRoot (2 ^ i)) (filter (\<lambda>i. bit ps i) (rev [0..<63]))"
    by (rule map_cong) (auto simp: shl1_lt63)
  show ?thesis
    unfolding prefix_ops_def a using and_shl1_63[OF assms] b c by simp
qed

lemma suffix_ops_64:
  assumes "0 \<le> em" and "em < 2 ^ 63"
  shows "suffix_ops em 64 =
     map (\<lambda>i. OpNextSubtreeRoot (2 ^ i)) (filter (\<lambda>i. \<not> bit em i) [0..<63])
     @ [OpNextSubtreeRoot (- (2 ^ 63))]"
proof -
  have a: "[64 - 64..<64] = [0..<63] @ [63]"
    by (metis upt_Suc_append zero_le Suc_numeral semiring_norm(2,8) diff_self_eq_0)
  have b: "filter (\<lambda>i. and em (shl1 i) = 0) [0..<63] = filter (\<lambda>i. \<not> bit em i) [0..<63]"
    by (rule filter_cong) (use and_shl1_bit[of _ em] in auto)
  have c: "map (\<lambda>i. OpNextSubtreeRoot (shl1 i)) (filter (\<lambda>i. \<not> bit em i) [0..<63])
         = map (\<lambda>i. OpNextSubtreeRoot (2 ^ i)) (filter (\<lambda>i. \<not> bit em i) [0..<63])"
    by (rule map_cong) (auto simp: shl1_lt63)
  show ?thesis
    unfolding suffix_ops_def a using and_shl1_63[OF assms] b c by (simp add: shl1_63)
qed

lemma BuildRangeProof_traced:
  assumes "0 \<le> proofStart" and "proofStart < proofEnd"
  shows "\<exists>ops. BuildRangeProof proofStart proofEnd (traced h) (s, [])
           = (fst (BuildRangeProof proofStart proofEnd h s),
              (snd (BuildRangeProof proofStart proofEnd h s), ops))
         \<and> prefix ops (prefix_ops proofStart 64 @ [OpSkip (proofEnd - proofStart)]
                          @ suffix_ops (proofEnd - 1) 64)
         \<and> ((\<exists>p. fst (BuildRangeProof proofStart proofEnd h s) = Ok p) \<longrightarrow>
              prefix (prefix_ops proofStart 64 @ [OpSkip (proofEnd - proofStart)]) ops)"
proof -
  have legal: "\<not> illegal_range proofStart proofEnd"
    using assms by (simp add: illegal_range_def)
  obtain r1 s1 where p: "build_prefix h proofStart 64 [] s = (r1, s1)" by force
  from build_prefix_traced[of h proofStart 64 "[]" s "[]"] p
  obtain ops1 where
    t1: "build_prefix (traced h) proofStart 64 [] (s, []) = (r1, (s1, ops1))"
    and pre1: "prefix ops1 (prefix_ops proofStart 64)"
    and full1: "(\<exists>p. r1 = Ok p) \<longrightarrow> ops1 = prefix_ops proofStart 64"
    by auto
  show ?thesis
  proof (cases r1)
    case (Err e)
    show ?thesis
      apply (rule exI[of _ ops1])
      using legal p t1 pre1 Err by (auto simp: BuildRangeProof_def intro: prefix_order.trans)
  next
    case (Panic x)
    show ?thesis
      apply (rule exI[of _ ops1])
      using legal p t1 pre1 Panic by (auto simp: BuildRangeProof_def intro: prefix_order.trans)
  next
    case (Ok pf)
    then have o1: "ops1 = prefix_ops proofStart 64" using full1 by simp
    obtain r2 s2 where sk: "Skip h (proofEnd - proofStart) s1 = (r2, s2)" by force
    then have tsk: "Skip (traced h) (proofEnd - proofStart) (s1, ops1)
        = (r2, (s2, ops1 @ [OpSkip (proofEnd - proofStart)]))"
      by (simp add: traced_Skip)
    show ?thesis
    proof (cases r2)
      case (Err e)
      show ?thesis
        apply (rule exI[of _ "ops1 @ [OpSkip (proofEnd - proofStart)]"])
        using legal p t1 Ok sk tsk Err o1 by (simp add: BuildRangeProof_def)
    next
      case (Panic x)
      show ?thesis
        apply (rule exI[of _ "ops1 @ [OpSkip (proofEnd - proofStart)]"])
        using legal p t1 Ok sk tsk Panic o1 by (simp add: BuildRangeProof_def)
    next
      case (Ok u)
      from build_suffix_traced[of 64 h "proofEnd - 1" pf s2 "ops1 @ [OpSkip (proofEnd - proofStart)]"]
      obtain ops3 where
        t3: "build_suffix (traced h) (proofEnd - 1) 64 pf (s2, ops1 @ [OpSkip (proofEnd - proofStart)])
             = (fst (build_suffix h (proofEnd - 1) 64 pf s2),
                (snd (build_suffix h (proofEnd - 1) 64 pf s2),
                 (ops1 @ [OpSkip (proofEnd - proofStart)]) @ ops3))"
        and pre3: "prefix ops3 (suffix_ops (proofEnd - 1) 64)"
        by auto
      show ?thesis
        apply (rule exI[of _ "(ops1 @ [OpSkip (proofEnd - proofStart)]) @ ops3"])
        using legal p t1 \<open>r1 = Ok pf\<close> sk tsk Ok o1 t3 pre3 by (simp add: BuildRangeProof_def)
    qed
  qed
qed

lemma performed_append:
  "performed h (xs @ ys) s =
     (case performed h xs s of
        (d, True, s') \<Rightarrow> (case performed h ys s' of (d', ok, s'') \<Rightarrow> (d @ d', ok, s''))
      | (d, False, s') \<Rightarrow> (d, False, s'))"
  by (induction xs arbitrary: s) (auto split: prod.splits bool.splits)

lemma build_prefix_performed:
  "build_prefix (traced h) ps k pf (s, tr)
     = (fst (build_prefix h ps k pf s),
        (snd (build_prefix h ps k pf s), tr @ fst (performed h (prefix_ops ps k) s)))
   \<and> (fst (snd (performed h (prefix_ops ps k) s)) \<longleftrightarrow> (\<exists>p. fst (build_prefix h ps k pf s) = Ok p))
   \<and> snd (snd (performed h (prefix_ops ps k) s)) = snd (build_prefix h ps k pf s)"
proof (induction k arbitrary: pf s tr)
  case 0
  then show ?case by simp
next
  case (Suc i)
  show ?case
  proof (cases "and ps (shl1 i) \<noteq> 0")
    case False
    then show ?thesis using Suc.IH[of pf s tr] by (simp add: prefix_ops_Suc)
  next
    case True
    obtain r s' where nx: "NextSubtreeRoot h (shl1 i) s = (r, s')" by force
    show ?thesis
    proof (cases r)
      case (Ok root)
      show ?thesis
        using True nx Ok Suc.IH[of "pf @ [root]" s' "tr @ [OpNextSubtreeRoot (shl1 i)]"]
        by (auto simp: traced_Next prefix_ops_Suc split: prod.splits)
    next
      case (Err e)
      show ?thesis
        using True nx Err by (simp add: traced_Next prefix_ops_Suc)
    next
      case (Panic p)
      show ?thesis
        using True nx Panic by (simp add: traced_Next prefix_ops_Suc)
    qed
  qed
qed

lemma build_suffix_performed:
  "k \<le> 64 \<Longrightarrow> build_suffix (traced h) em k pf (s, tr)
     = (fst (build_suffix h em k pf s),
        (snd (build_suffix h em k pf s), tr @ fst (performed h (suffix_ops em k) s)))"
proof (induction k arbitrary: pf s tr)
  case 0
  then show ?case by simp
next
  case (Suc k)
  then have k: "k < 64" "k \<le> 64" by simp_all
  show ?case
  proof (cases "and em (shl1 (63 - k)) = 0")
    case False
    then show ?thesis using Suc.IH[OF k(2), of pf s tr] k(1) by (simp add: suffix_ops_Suc)
  next
    case True
    obtain r s' where nx: "NextSubtreeRoot h (shl1 (63 - k)) s = (r, s')" by force
    show ?thesis
    proof (cases r)
      case (Ok root)
      show ?thesis
        using True nx Ok k(1)
          Suc.IH[OF k(2), of "pf @ [root]" s' "tr @ [OpNextSubtreeRoot (shl1 (63 - k))]"]
        by (auto simp: traced_Next suffix_ops_Suc split: prod.splits)
    next
      case (Err e)
      show ?thesis
        using True nx Err k(1) by (simp add: traced_Next suffix_ops_Suc)
    next
      case (Panic p)
      show ?thesis
        using True nx Panic k(1) by (simp add: traced_Next suffix_ops_Suc)
    qed
  qed
qed

lemma BuildRangeProof_performed:
  assumes "0 \<le> proofStart" and "proofStart < proofEnd"
  shows "BuildRangeProof proofStart proofEnd (traced h) (s, [])
           = (fst (BuildRangeProof proofStart proofEnd h s),
              (snd (BuildRangeProof proofStart proofEnd h s),
               fst (performed h (prefix_ops proofStart 64 @ [OpSkip (proofEnd - proofStart)]
                          @ suffix_ops (proofEnd - 1) 64) s)))"
proof -
  have legal: "\<not> illegal_range proofStart proofEnd"
    using assms by (simp add: illegal_range_def)
  obtain r1 s1 where p: "build_prefix h proofStart 64 [] s = (r1, s1)" by force
  obtain d1 ok1 t1 where q: "performed h (prefix_ops proofStart 64) s = (d1, ok1, t1)"
    by (cases "performed h (prefix_ops proofStart 64) s") auto
  from build_prefix_performed[of h proofStart 64 "[]" s "[]"] p q
  have tp: "build_prefix (traced h) proofStart 64 [] (s, []) = (r1, (s1, d1))"
    and ok: "ok1 \<longleftrightarrow> (\<exists>p. r1 = Ok p)" and st: "t1 = s1"
    by simp_all
  show ?thesis
  proof (cases r1)
    case (Err e)
    then have "\<not> ok1" using ok by simp
    then show ?thesis
      using legal p tp q Err by (simp add: BuildRangeProof_def performed_append)
  next
    case (Panic x)
    then have "\<not> ok1" using ok by simp
    then show ?thesis
      using legal p tp q Panic by (simp add: BuildRangeProof_def performed_append)
  next
    case (Ok pf)
    then have ok1: "ok1" using ok by simp
    obtain r2 s2 where sk: "Skip h (proofEnd - proofStart) s1 = (r2, s2)" by force
    then have tsk: "Skip (traced h) (proofEnd - proofStart) (s1, d1)
        = (r2, (s2, d1 @ [OpSkip (proofEnd - proofStart)]))"
      by (simp add: traced_Skip)
    show ?thesis
    proof (cases r2)
      case (Err e)
      show ?thesis
        using legal p tp q Ok ok1 st sk tsk Err
        by (simp add: BuildRangeProof_def performed_append)
    next
      case (Panic x)
      show ?thesis
        using legal p tp q Ok ok1 st sk tsk Panic
        by (simp add: BuildRangeProof_def performed_append)
    next
      case (Ok u)
      have k64: "(64::nat) \<le> 64" by simp
      note sf = build_suffix_performed[OF k64, of h "proofEnd - 1" pf s2
          "d1 @ [OpSkip (proofEnd - proofStart)]"]
      show ?thesis
        using legal p tp q \<open>r1 = Ok pf\<close> ok1 st sk tsk Ok sf
        by (simp add: BuildRangeProof_def performed_append split: prod.splits)
    qed
  qed
qed

section \<open>BuildRangeProof over a list of leaf hashes\<close>

lemma csh_loop_eq:
  "csh_loop H k tree hs = (Inr (fold (pushLeafHash H) (take k hs) tree), drop k hs)"
  by (induction H k tree hs rule: csh_loop.induct) (auto simp: PushSubTree_0_eq)

lemma csh_Next_Nil: "NextSubtreeRoot (CachedSubtreeHasher H) n [] = (Err EOF, [])"
  by (simp add: CachedSubtreeHasher_def csh_NextSubtreeRoot_def)

lemma csh_Next_Cons:
  "hs \<noteq> [] \<Longrightarrow> NextSubtreeRoot (CachedSubtreeHasher H) n hs
     = (Ok (slice_of (CachedRoot H (take (nat n) hs))), drop (nat n) hs)"
  by (simp add: CachedSubtreeHasher_def csh_NextSubtreeRoot_def csh_loop_eq CachedRoot_def)

lemma bit_int_nat: "bit (int s) i \<longleftrightarrow> bit s i"
  by (simp add: bit_of_nat_iff_bit)

lemma round_down_0 [simp]: "round_down s 0 = s"
  by (simp add: round_down_def)

lemma round_down_Suc:
  "round_down s i = round_down s (Suc i) + (if bit s i then 2 ^ i else 0)"
proof -
  define q where "q = s div 2 ^ i"
  have "s div (2 ^ i * 2) = s div 2 ^ i div 2" by (rule div_mult2_eq)
  then have a: "s div 2 ^ Suc i = q div 2" unfolding q_def by (simp add: mult.commute)
  have b: "bit s i \<longleftrightarrow> odd q" unfolding q_def by (rule bit_iff_odd)
  have c: "q = 2 * (q div 2) + (if odd q then 1 else 0)" by presburger
  have "q * 2 ^ i = (2 * (q div 2) + (if odd q then 1 else 0)) * 2 ^ i" using c by simp
  also have "\<dots> = (q div 2) * 2 ^ Suc i + (if odd q then 2 ^ i else 0)"
    by (simp add: algebra_simps)
  finally show ?thesis
    unfolding round_down_def a b q_def[symmetric] .
qed

lemma round_down_le: "round_down s i \<le> s"
  by (simp add: round_down_def)

lemma round_down_big: "s < 2 ^ i \<Longrightarrow> round_down s i = 0"
  by (simp add: round_down_def)


lemma round_up_0 [simp]: "round_up e 0 = Suc e"
  by (simp add: round_up_def)

lemma round_up_Suc:
  "round_up e (Suc i) = round_up e i + (if bit e i then 0 else 2 ^ i)"
proof -
  define q where "q = e div 2 ^ i"
  have "e div (2 ^ i * 2) = e div 2 ^ i div 2" by (rule div_mult2_eq)
  then have a: "e div 2 ^ Suc i = q div 2" unfolding q_def by (simp add: mult.commute)
  have b: "bit e i \<longleftrightarrow> odd q" unfolding q_def by (rule bit_iff_odd)
  have c: "2 * (q div 2) + 2 = q + 1 + (if odd q then 0 else 1)" by presburger
  have "(q div 2 + 1) * 2 ^ Suc i = (2 * (q div 2) + 2) * 2 ^ i"
    by (simp add: algebra_simps)
  also have "\<dots> = (q + 1 + (if odd q then 0 else 1)) * 2 ^ i" using c by simp
  also have "\<dots> = (q + 1) * 2 ^ i + (if odd q then 0 else 2 ^ i)"
    by (simp add: algebra_simps)
  finally show ?thesis
    unfolding round_up_def a b q_def[symmetric] .
qed

lemma round_up_mono: "i \<le> j \<Longrightarrow> round_up e i \<le> round_up e j"
proof (induction j)
  case 0
  then show ?case by simp
next
  case (Suc j)
  show ?case
  proof (cases "i = Suc j")
    case True
    then show ?thesis by simp
  next
    case False
    then have "round_up e i \<le> round_up e j" using Suc by simp
    also have "\<dots> \<le> round_up e (Suc j)" by (simp add: round_up_Suc)
    finally show ?thesis .
  qed
qed

lemma round_up_ge_pow: "2 ^ i \<le> round_up e i"
  by (simp add: round_up_def)

lemma suffix_entries_Cons:
  "i < 63 \<Longrightarrow> suffix_entries H hs e i =
     (if \<not> bit e i \<and> round_up e i < length hs
      then segment_root H hs (round_up e i) (2 ^ i) # suffix_entries H hs e (Suc i)
      else suffix_entries H hs e (Suc i))"
  by (simp add: suffix_entries_def upt_conv_Cons)

lemma suffix_entries_outside:
  assumes "length hs \<le> round_up e i"
  shows "suffix_entries H hs e i = []"
proof -
  have "\<And>j. j \<in> set [i..<63] \<Longrightarrow> \<not> (\<not> bit e j \<and> round_up e j < length hs)"
  proof -
    fix j assume "j \<in> set [i..<63]"
    then have "i \<le> j" by simp
    then have "round_up e i \<le> round_up e j" by (rule round_up_mono)
    then show "\<not> (\<not> bit e j \<and> round_up e j < length hs)" using assms by simp
  qed
  then have "filter (\<lambda>j. \<not> bit e j \<and> round_up e j < length hs) [i..<63] = []"
    by (simp add: filter_empty_conv)
  then show ?thesis by (simp add: suffix_entries_def)
qed

section \<open>The entries of a proof\<close>

lemma build_prefix_segments:
  fixes h :: "'s SubtreeHasher"
  assumes nx: "\<And>n st. V st \<Longrightarrow> \<alpha> st \<noteq> [] \<Longrightarrow> 0 < n \<Longrightarrow>
      \<exists>st'. NextSubtreeRoot h (int n) st = (Ok (slice_of (CachedRoot H (take n (\<alpha> st)))), st')
           \<and> V st' \<and> \<alpha> st' = drop n (\<alpha> st)"
    and "s \<le> length hs" and "k \<le> 63"
  shows "V st \<Longrightarrow> \<alpha> st = drop (round_down s k) hs \<Longrightarrow>
     \<exists>st'. build_prefix h (int s) k pf st = (Ok (pf @ prefix_entries H hs s k), st')
          \<and> V st' \<and> \<alpha> st' = drop s hs"
  using assms(3)
proof (induction k arbitrary: pf st)
  case 0
  then show ?case by (simp add: prefix_entries_def)
next
  case (Suc i)
  then have i: "i < 63" "i \<le> 63" by simp_all
  have sh: "shl1 i = int (2 ^ i)" using i(1) by (simp add: shl1_lt63)
  have bt: "and (int s) (shl1 i) \<noteq> 0 \<longleftrightarrow> bit s i"
    using i(1) by (simp add: and_shl1_bit bit_int_nat)
  show ?case
  proof (cases "bit s i")
    case True
    have rd: "round_down s i = round_down s (Suc i) + 2 ^ i"
      using True round_down_Suc[of s i] by simp
    have "round_down s i \<le> length hs" using round_down_le[of s i] assms(2) by simp
    moreover have "0 < (2::nat) ^ i" by simp
    ultimately have lt: "round_down s (Suc i) < length hs" using rd by linarith
    then have ne: "\<alpha> st \<noteq> []" using Suc.prems(2) by simp
    from nx[OF Suc.prems(1) ne, of "2 ^ i"] obtain st1 where
      n1: "NextSubtreeRoot h (int (2 ^ i)) st = (Ok (slice_of (CachedRoot H (take (2 ^ i) (\<alpha> st)))), st1)"
      and v1: "V st1" and a1: "\<alpha> st1 = drop (2 ^ i) (\<alpha> st)" by auto
    have a1': "\<alpha> st1 = drop (round_down s i) hs"
      unfolding a1 Suc.prems(2) rd by (simp add: add.commute)
    have seg: "slice_of (CachedRoot H (take (2 ^ i) (\<alpha> st))) = segment_root H hs (round_down s (Suc i)) (2 ^ i)"
      unfolding Suc.prems(2) segment_root_def ..
    have pe: "prefix_entries H hs s (Suc i)
        = segment_root H hs (round_down s (Suc i)) (2 ^ i) # prefix_entries H hs s i"
      using True by (simp add: prefix_entries_def)
    from Suc.IH[OF v1 a1' i(2), of "pf @ [segment_root H hs (round_down s (Suc i)) (2 ^ i)]"]
    show ?thesis
      using bt True n1 seg pe sh by simp
  next
    case False
    have rd: "round_down s i = round_down s (Suc i)"
      using False round_down_Suc[of s i] by simp
    have pe: "prefix_entries H hs s (Suc i) = prefix_entries H hs s i"
      using False by (simp add: prefix_entries_def)
    from Suc.IH[OF Suc.prems(1) _ i(2), of pf] Suc.prems(2)
    show ?thesis
      using bt False pe rd by simp
  qed
qed

lemma build_suffix_segments:
  fixes h :: "'s SubtreeHasher"
  assumes nx: "\<And>n st. V st \<Longrightarrow> \<alpha> st \<noteq> [] \<Longrightarrow> 0 < n \<Longrightarrow>
      \<exists>st'. NextSubtreeRoot h (int n) st = (Ok (slice_of (CachedRoot H (take n (\<alpha> st)))), st')
           \<and> V st' \<and> \<alpha> st' = drop n (\<alpha> st)"
    and nil: "\<And>n st. V st \<Longrightarrow> \<alpha> st = [] \<Longrightarrow>
      \<exists>st'. NextSubtreeRoot h n st = (Err EOF, st') \<and> V st' \<and> \<alpha> st' = []"
    and "e < 2 ^ 63" and "length hs \<le> 2 ^ 63" and "k \<le> 64"
  shows "V st \<Longrightarrow> \<alpha> st = drop (round_up e (64 - k)) hs \<Longrightarrow>
     \<exists>st'. build_suffix h (int e) k pf st = (Ok (pf @ suffix_entries H hs e (64 - k)), st')
          \<and> V st' \<and> \<alpha> st' = []"
  using assms(5)
proof (induction k arbitrary: pf st)
  case 0
  have "(2::nat) ^ 63 \<le> 2 ^ 64" by simp
  then have "length hs \<le> round_up e 64"
    using assms(4) round_up_ge_pow[of 64 e] by linarith
  then show ?case using 0 by (simp add: suffix_entries_def)
next
  case (Suc k)
  then have k: "k < 64" "k \<le> 64" by simp_all
  define i where "i = 63 - k"
  have i1: "64 - Suc k = i" unfolding i_def by simp
  have i2: "64 - k = Suc i" unfolding i_def using k(1) by simp
  have ik: "63 - k = i" unfolding i_def by simp
  note st = Suc.prems(2)[unfolded i1]
  show ?case
  proof (cases "k = 0")
    case True
    then have i63: "i = 63" unfolding i_def by simp
    have "int e < 2 ^ 63" using assms(3)
      by (metis of_nat_less_iff of_nat_numeral of_nat_power)
    then have z: "and (int e) (shl1 63) = 0" by (simp add: and_shl1_63)
    have "length hs \<le> round_up e 63" using assms(4) round_up_ge_pow[of 63 e] by linarith
    then have d: "\<alpha> st = []" using st i63 by simp
    from nil[OF Suc.prems(1) d, of "shl1 63"] obtain st1 where
      n1: "NextSubtreeRoot h (shl1 63) st = (Err EOF, st1)" and v1: "V st1" and a1: "\<alpha> st1 = []"
      by auto
    have se: "suffix_entries H hs e 63 = []" by (simp add: suffix_entries_def)
    show ?thesis
      unfolding i1 i63 using True z n1 v1 a1 se by simp
  next
    case False
    then have i: "i < 63" unfolding i_def using k(1) by simp
    have sh: "shl1 i = int (2 ^ i)" using i by (simp add: shl1_lt63)
    have bt: "and (int e) (shl1 i) = 0 \<longleftrightarrow> \<not> bit e i"
      using and_shl1_bit[OF i, of "int e"] unfolding bit_int_nat by blast
    show ?thesis
    proof (cases "bit e i")
      case True
      then have ru: "round_up e (Suc i) = round_up e i" by (simp add: round_up_Suc)
      from Suc.IH[OF Suc.prems(1) _ k(2), of pf] st
      show ?thesis
        unfolding i1 i2 using True bt ik ru suffix_entries_Cons[OF i, of H hs e] by simp
    next
      case clear: False
      then have ru: "round_up e (Suc i) = round_up e i + 2 ^ i" by (simp add: round_up_Suc)
      show ?thesis
      proof (cases "round_up e i < length hs")
        case True
        then have ne: "\<alpha> st \<noteq> []" using st by simp
        from nx[OF Suc.prems(1) ne, of "2 ^ i"] obtain st1 where
          n1: "NextSubtreeRoot h (int (2 ^ i)) st = (Ok (slice_of (CachedRoot H (take (2 ^ i) (\<alpha> st)))), st1)"
          and v1: "V st1" and a1: "\<alpha> st1 = drop (2 ^ i) (\<alpha> st)" by auto
        have a1': "\<alpha> st1 = drop (round_up e (64 - k)) hs"
          unfolding a1 st ru i2 by (simp add: add.commute)
        have seg: "slice_of (CachedRoot H (take (2 ^ i) (\<alpha> st))) = segment_root H hs (round_up e i) (2 ^ i)"
          unfolding st segment_root_def ..
        from Suc.IH[OF v1 a1' k(2), of "pf @ [segment_root H hs (round_up e i) (2 ^ i)]"]
        show ?thesis
          unfolding i1 i2
          using clear bt ik n1 seg sh True suffix_entries_Cons[OF i, of H hs e] by simp
      next
        case False
        then have d: "\<alpha> st = []" using st by simp
        from nil[OF Suc.prems(1) d, of "shl1 i"] obtain st1 where
          n1: "NextSubtreeRoot h (shl1 i) st = (Err EOF, st1)" and v1: "V st1" and a1: "\<alpha> st1 = []"
          by auto
        have se: "suffix_entries H hs e i = []"
          by (rule suffix_entries_outside) (use False in simp)
        show ?thesis
          unfolding i1 using clear bt ik n1 v1 a1 se by simp
      qed
    qed
  qed
qed


lemma BuildRangeProof_segments:
  fixes h :: "'s SubtreeHasher"
  assumes nx: "\<And>n st. V st \<Longrightarrow> \<alpha> st \<noteq> [] \<Longrightarrow> 0 < n \<Longrightarrow>
      \<exists>st'. NextSubtreeRoot h (int n) st = (Ok (slice_of (CachedRoot H (take n (\<alpha> st)))), st')
           \<and> V st' \<and> \<alpha> st' = drop n (\<alpha> st)"
    and nil: "\<And>n st. V st \<Longrightarrow> \<alpha> st = [] \<Longrightarrow>
      \<exists>st'. NextSubtreeRoot h n st = (Err EOF, st') \<and> V st' \<and> \<alpha> st' = []"
    and sk: "\<And>st1. V st1 \<Longrightarrow> \<alpha> st1 = drop s hs \<Longrightarrow>
      \<exists>st2. Skip h (int e - int s) st1 = (Ok (), st2) \<and> V st2 \<and> \<alpha> st2 = drop e hs"
    and se: "s < e" and el: "e \<le> length hs" and len: "length hs < 2 ^ 63"
    and v0: "V st" and a0: "\<alpha> st = hs"
  shows "\<exists>st'. BuildRangeProof (int s) (int e) h st = (Ok (range_proof H hs s e), st')
          \<and> V st' \<and> \<alpha> st' = []"
proof -
  have legal: "\<not> illegal_range (int s) (int e)" using se by (simp add: illegal_range_def)
  have s63: "s < 2 ^ 63" using se el len by linarith
  have e63: "e - 1 < 2 ^ 63" using se el len by linarith
  have sl: "s \<le> length hs" using se el by linarith
  have l63: "length hs \<le> 2 ^ 63" using len by linarith
  have "int s < int (2 ^ 63)" using s63 by (rule iffD2[OF of_nat_less_iff])
  then have "int s < 2 ^ 63" by simp
  then have z: "and (int s) (shl1 63) = 0" by (simp add: and_shl1_63)
  have "build_prefix h (int s) (Suc 63) [] st = build_prefix h (int s) 63 [] st"
    unfolding build_prefix.simps(2) Let_def using z by simp
  then have b64: "build_prefix h (int s) 64 [] st = build_prefix h (int s) 63 [] st"
    by simp
  have a0': "\<alpha> st = drop (round_down s 63) hs" using s63 a0 by (simp add: round_down_big)
  have k63: "(63::nat) \<le> 63" by simp
  have "\<exists>st'. build_prefix h (int s) 63 [] st = (Ok ([] @ prefix_entries H hs s 63), st')
          \<and> V st' \<and> \<alpha> st' = drop s hs"
    using nx sl k63 v0 a0' by (rule build_prefix_segments)
  then obtain st1 where
    p: "build_prefix h (int s) 64 [] st = (Ok (prefix_entries H hs s 63), st1)"
    and v1: "V st1" and a1: "\<alpha> st1 = drop s hs"
    unfolding b64 append_Nil by blast
  from sk[OF v1 a1] obtain st2 where
    k2: "Skip h (int e - int s) st1 = (Ok (), st2)" and v2: "V st2" and a2: "\<alpha> st2 = drop e hs"
    by blast
  have ie: "int (e - 1) = int e - 1" using se by simp
  have "Suc (e - 1) = e" using se by simp
  then have a2': "\<alpha> st2 = drop (round_up (e - 1) (64 - 64)) hs" using a2 by simp
  have k64: "(64::nat) \<le> 64" by simp
  have "\<exists>st'. build_suffix h (int (e - 1)) 64 (prefix_entries H hs s 63) st2
          = (Ok (prefix_entries H hs s 63 @ suffix_entries H hs (e - 1) (64 - 64)), st')
          \<and> V st' \<and> \<alpha> st' = []"
    using nx nil e63 l63 k64 v2 a2' by (rule build_suffix_segments)
  then obtain st3 where
    sf: "build_suffix h (int e - 1) 64 (prefix_entries H hs s 63) st2
        = (Ok (range_proof H hs s e), st3)"
    and v3: "V st3" and a3: "\<alpha> st3 = []"
    unfolding ie range_proof_def by auto
  have "BuildRangeProof (int s) (int e) h st = (Ok (range_proof H hs s e), st3)"
    unfolding BuildRangeProof_def using legal p k2 sf by simp
  then show ?thesis using v3 a3 by blast
qed

lemma BuildRangeProof_cached:
  assumes "s < e" and "e \<le> length hs" and "length hs < 2 ^ 63"
  shows "BuildRangeProof (int s) (int e) (CachedSubtreeHasher H) hs
       = (Ok (range_proof H hs s e), [])"
proof -
  have nx: "\<exists>st'. NextSubtreeRoot (CachedSubtreeHasher H) (int n) st
             = (Ok (slice_of (CachedRoot H (take n (id st)))), st') \<and> True \<and> id st' = drop n (id st)"
    if "True" and "id st \<noteq> []" and "0 < n" for n st
    using that by (simp add: csh_Next_Cons)
  have nil: "\<exists>st'. NextSubtreeRoot (CachedSubtreeHasher H) n st = (Err EOF, st') \<and> True \<and> id st' = []"
    if "True" and "id st = []" for n st
    using that by (simp add: csh_Next_Nil)
  have sk: "\<exists>st2. Skip (CachedSubtreeHasher H) (int e - int s) st1 = (Ok (), st2) \<and> True \<and> id st2 = drop e hs"
    if "True" and "id st1 = drop s hs" for st1
    using that assms by (simp add: CachedSubtreeHasher_def csh_Skip_def nat_diff_distrib')
  have "\<exists>st'. BuildRangeProof (int s) (int e) (CachedSubtreeHasher H) hs
          = (Ok (range_proof H hs s e), st') \<and> True \<and> id st' = []"
    using nx nil sk assms TrueI by (rule BuildRangeProof_segments) simp_all
  then show ?thesis by auto
qed

lemma joinAllSubTrees_ne: "t \<noteq> [] \<Longrightarrow> joinAllSubTrees H t \<noteq> []"
  by (induction H t rule: joinAllSubTrees.induct) auto

lemma pushLeafHash_ne: "pushLeafHash H x t \<noteq> []"
  by (simp add: pushLeafHash_def joinAllSubTrees_ne)

lemma fold_push_ne: "xs \<noteq> [] \<or> t \<noteq> [] \<Longrightarrow> fold (pushLeafHash H) xs t \<noteq> []"
  by (induction xs arbitrary: t) (auto simp: pushLeafHash_ne)

lemma Root_Some: "t \<noteq> [] \<Longrightarrow> \<exists>r. Root H t = Some r"
  by (cases t) (auto simp: Root_def)

lemma Push_eq: "Push H buf t = pushLeafHash H (leafSum H buf) t"
  by (simp add: Push_def pushLeafHash_def)

lemma leaves_short: "0 < L \<Longrightarrow> d \<noteq> [] \<Longrightarrow> length d \<le> L \<Longrightarrow> leaves L d = [d]"
  by (simp add: leaves_Cons)

lemma leaves_drop: "0 < L \<Longrightarrow> leaves L (drop (k * L) d) = drop k (leaves L d)"
proof (induction k arbitrary: d)
  case 0
  then show ?case by simp
next
  case (Suc k)
  show ?case
  proof (cases "d = []")
    case True
    then show ?thesis by simp
  next
    case False
    have "drop (Suc k * L) d = drop (k * L) (drop L d)" by (simp add: add.commute)
    then have "leaves L (drop (Suc k * L) d) = leaves L (drop (k * L) (drop L d))" by simp
    also have "\<dots> = drop k (leaves L (drop L d))" using Suc.prems by (rule Suc.IH)
    also have "\<dots> = drop (Suc k) (leaves L d)" using Suc.prems False by (simp add: leaves_Cons)
    finally show ?thesis .
  qed
qed

lemma rsh_loop_Nil: "rsh_loop H L k tree (Reader [] None) = (Inr tree, Reader [] None)"
  by (induction k) auto

lemma rsh_loop_eq:
  "0 < L \<Longrightarrow> rsh_loop H L k tree (Reader d None)
     = (Inr (fold (pushLeafHash H) (take k (map (leafSum H) (leaves L d))) tree),
        Reader (drop (k * L) d) None)"
proof (induction k arbitrary: tree d)
  case 0
  then show ?case by simp
next
  case (Suc k)
  note L = Suc.prems
  consider (empty) "d = []" | (whole) "L \<le> length d" | (short) "d \<noteq> []" "length d < L"
    by fastforce
  then show ?case
  proof cases
    case empty
    then show ?thesis using L by simp
  next
    case whole
    then have ne: "d \<noteq> []" using L by auto
    have rf: "ReadFull L (Reader d None) = ((take L d, None), Reader (drop L d) None)"
      using whole L by simp
    have dd: "drop (Suc k * L) d = drop (k * L) (drop L d)" by (simp add: add.commute)
    have lv: "leaves L d = take L d # leaves L (drop L d)" using L ne by (rule leaves_Cons)
    have tk: "0 < length (take L d)" using whole L by simp
    show ?thesis
      unfolding rsh_loop.simps rf dd lv
      using tk Suc.IH[OF L, of "Push H (take L d) tree" "drop L d"]
      by (simp add: Push_eq)
  next
    case short
    have rf: "ReadFull L (Reader d None) = ((d, Some ErrUnexpectedEOF), Reader [] None)"
      using short L by simp
    have lv: "leaves L d = [d]" using L short by (simp add: leaves_short)
    have "length d \<le> Suc k * L" using short(2) by (simp add: trans_le_add1)
    then have dd: "drop (Suc k * L) d = []" by simp
    show ?thesis
      unfolding rsh_loop.simps rf dd lv using short(1) by (simp add: Push_eq)
  qed
qed

lemma rsh_Next_Cons:
  assumes "0 < L" and "0 < n" and "d \<noteq> []"
  shows "NextSubtreeRoot (ReaderSubtreeHasher H L) (int n) (Reader d None)
       = (Ok (slice_of (CachedRoot H (take n (map (leafSum H) (leaves L d))))),
          Reader (drop (n * L) d) None)"
proof -
  have "leaves L d \<noteq> []" using assms by (simp add: leaves_Cons)
  then have "take n (map (leafSum H) (leaves L d)) \<noteq> []" using assms(2) by simp
  then have "fold (pushLeafHash H) (take n (map (leafSum H) (leaves L d))) New \<noteq> []"
    by (simp add: fold_push_ne)
  then obtain r where r: "Root H (fold (pushLeafHash H) (take n (map (leafSum H) (leaves L d))) New) = Some r"
    using Root_Some by blast
  show ?thesis
    using r assms(1)
    by (simp add: ReaderSubtreeHasher_def rsh_NextSubtreeRoot_def rsh_loop_eq CachedRoot_def slice_of_def)
qed

lemma rsh_Next_Nil:
  "NextSubtreeRoot (ReaderSubtreeHasher H L) n (Reader [] None) = (Err EOF, Reader [] None)"
  by (simp add: ReaderSubtreeHasher_def rsh_NextSubtreeRoot_def rsh_loop_Nil New_def Root_def)

lemma leaves_eq_Nil: "0 < L \<Longrightarrow> leaves L d = [] \<longleftrightarrow> d = []"
  by (cases "d = []") (simp_all add: leaves_Cons)

lemma BuildRangeProof_reader:
  assumes L: "0 < L" and se: "s < e" and el: "e \<le> length (leaves L d)"
    and whole: "e * L \<le> length d" and len: "length (leaves L d) < 2 ^ 63"
    and dlen: "length d < 2 ^ 63"
  shows "BuildRangeProof (int s) (int e) (ReaderSubtreeHasher H L) (Reader d None)
       = (Ok (range_proof H (map (leafSum H) (leaves L d)) s e), Reader [] None)"
proof -
  define V where "V = (\<lambda>st. \<exists>j. st = Reader (drop (j * L) d) None)"
  define hs where "hs = map (leafSum H) (leaves L d)"
  have al: "reader_hashes H L (Reader (drop (j * L) d) None) = drop j hs" for j
    using L by (simp add: hs_def leaves_drop drop_map)
  have nx: "\<exists>st'. NextSubtreeRoot (ReaderSubtreeHasher H L) (int n) st
             = (Ok (slice_of (CachedRoot H (take n (reader_hashes H L st)))), st')
             \<and> V st' \<and> reader_hashes H L st' = drop n (reader_hashes H L st)"
    if "V st" and "reader_hashes H L st \<noteq> []" and "0 < n" for n st
  proof -
    from that(1) obtain j where st: "st = Reader (drop (j * L) d) None" unfolding V_def by blast
    have ne: "drop (j * L) d \<noteq> []" using that(2) unfolding st by auto
    have "n * L + j * L = (j + n) * L" by (simp add: add_mult_distrib)
    then have dd: "drop (n * L) (drop (j * L) d) = drop ((j + n) * L) d"
      by (simp only: drop_drop)
    have "NextSubtreeRoot (ReaderSubtreeHasher H L) (int n) st
        = (Ok (slice_of (CachedRoot H (take n (reader_hashes H L st)))),
           Reader (drop ((j + n) * L) d) None)"
      unfolding st using rsh_Next_Cons[OF L that(3) ne, of H] unfolding dd by simp
    moreover have "V (Reader (drop ((j + n) * L) d) None)" unfolding V_def by blast
    moreover have "reader_hashes H L (Reader (drop ((j + n) * L) d) None)
        = drop n (reader_hashes H L st)"
      unfolding st al by (simp add: add.commute)
    ultimately show ?thesis by blast
  qed
  have nil: "\<exists>st'. NextSubtreeRoot (ReaderSubtreeHasher H L) n st = (Err EOF, st')
             \<and> V st' \<and> reader_hashes H L st' = []"
    if "V st" and "reader_hashes H L st = []" for n st
  proof -
    from that(1) obtain j where st: "st = Reader (drop (j * L) d) None" unfolding V_def by blast
    have e: "drop (j * L) d = []" using that(2) L unfolding st by (simp add: leaves_eq_Nil)
    have "NextSubtreeRoot (ReaderSubtreeHasher H L) n st = (Err EOF, st)"
      unfolding st e by (rule rsh_Next_Nil)
    then show ?thesis using that by blast
  qed
  have sk: "\<exists>st2. Skip (ReaderSubtreeHasher H L) (int e - int s) st1 = (Ok (), st2)
             \<and> V st2 \<and> reader_hashes H L st2 = drop e hs"
    if "V st1" and "reader_hashes H L st1 = drop s hs" for st1
  proof -
    from that(1) obtain j where st: "st1 = Reader (drop (j * L) d) None" unfolding V_def by blast
    have "length (drop j hs) = length (drop s hs)" using that(2) unfolding st al by simp
    moreover have "s < length hs" using se el by (simp add: hs_def)
    ultimately have j: "j = s" by simp
    have es: "s + (e - s) = e" using se by simp
    have "s * L + (e - s) * L = (s + (e - s)) * L" by (rule add_mult_distrib[symmetric])
    then have sum: "s * L + (e - s) * L = e * L" unfolding es .
    then have "(e - s) * L \<le> length d - s * L" using whole by linarith
    then have "int ((e - s) * L) \<le> int (length d - s * L)" by (rule iffD2[OF of_nat_le_iff])
    moreover have "int ((e - s) * L) = int L * (int e - int s)"
      using se by (simp add: mult.commute)
    moreover have "length (drop (s * L) d) = length d - s * L" by simp
    ultimately have fit: "int L * (int e - int s) \<le> int (length (drop (s * L) d))"
      by (simp only:)
    have "int (length (drop (s * L) d)) \<le> int (length d)" by simp
    moreover have "int (length d) < 2 ^ 63" using dlen by (metis of_nat_less_iff of_nat_numeral of_nat_power)
    ultimately have sm: "int L * (int e - int s) < 2 ^ 63" using fit by linarith
    have pos: "0 \<le> int e - int s" using se by simp
    have "int (e - s) = int e - int s" using se by simp
    then have n: "nat (int e - int s) = e - s" by (metis nat_int)
    have "L * (e - s) + s * L = e * L" using sum by (simp add: mult.commute)
    then have dd: "drop (L * nat (int e - int s)) (drop (s * L) d) = drop (e * L) d"
      by (simp only: n drop_drop)
    have "Skip (ReaderSubtreeHasher H L) (int e - int s) st1 = (Ok (), Reader (drop (e * L) d) None)"
      unfolding st j using rsh_Skip_whole[OF pos fit sm, of H None] unfolding dd .
    moreover have "V (Reader (drop (e * L) d) None)" unfolding V_def by blast
    ultimately show ?thesis using al by blast
  qed
  have v0: "V (Reader d None)" unfolding V_def by (rule exI[of _ 0]) simp
  have a0: "reader_hashes H L (Reader d None) = hs" by (simp add: hs_def)
  have "\<exists>st'. BuildRangeProof (int s) (int e) (ReaderSubtreeHasher H L) (Reader d None)
          = (Ok (range_proof H hs s e), st') \<and> V st' \<and> reader_hashes H L st' = []"
    using nx nil sk se _ _ v0 a0 by (rule BuildRangeProof_segments) (use el len in \<open>simp_all add: hs_def\<close>)
  then obtain st' where
    b: "BuildRangeProof (int s) (int e) (ReaderSubtreeHasher H L) (Reader d None)
          = (Ok (range_proof H hs s e), st')"
    and v: "V st'" and a: "reader_hashes H L st' = []" by blast
  from v obtain j where st: "st' = Reader (drop (j * L) d) None" unfolding V_def by blast
  have "drop (j * L) d = []" using a L unfolding st by (simp add: leaves_eq_Nil)
  then show ?thesis using b unfolding st hs_def by simp
qed

section \<open>The length of a proof\<close>

lemma bitlen_0 [simp]: "bitlen 0 = 0"
  by (simp add: bitlen.simps)

lemma bitlen_pos: "0 < n \<Longrightarrow> bitlen n = Suc (bitlen (n div 2))"
  by (subst bitlen.simps) simp

lemma bitlen_less: "n < 2 ^ bitlen n"
proof (induction n rule: bitlen.induct)
  case (1 n)
  show ?case
  proof (cases "n = 0")
    case True
    then show ?thesis by simp
  next
    case False
    then have "n div 2 < 2 ^ bitlen (n div 2)" using 1 by simp
    then have "n < 2 * 2 ^ bitlen (n div 2)" by linarith
    moreover have "bitlen n = Suc (bitlen (n div 2))" using False bitlen_pos[of n] by simp
    ultimately show ?thesis by simp
  qed
qed

lemma bitlen_ge: "2 ^ j \<le> n \<Longrightarrow> j < bitlen n"
proof (induction n arbitrary: j rule: bitlen.induct)
  case (1 n)
  have "0 < (2::nat) ^ j" by simp
  then have pos: "0 < n" using 1(2) by linarith
  show ?case
  proof (cases j)
    case 0
    then show ?thesis using pos bitlen_pos[of n] by simp
  next
    case (Suc j')
    then have "2 * 2 ^ j' \<le> n" using 1(2) by simp
    then have "2 ^ j' \<le> n div 2" by linarith
    then have "j' < bitlen (n div 2)" using 1(1) pos by simp
    then show ?thesis using Suc pos bitlen_pos[of n] by simp
  qed
qed

lemma bitlen_pow2: "bitlen (2 ^ w - 1) = w"
proof (induction w)
  case 0
  then show ?case by simp
next
  case (Suc w)
  have "0 < (2::nat) ^ w" by simp
  then obtain m where m: "(2::nat) ^ w = Suc m" using gr0_implies_Suc by blast
  have a: "(2::nat) ^ Suc w - 1 = 2 * m + 1" using m by simp
  have b: "(2::nat) ^ w - 1 = m" using m by simp
  have "bitlen (2 * m + 1) = Suc (bitlen ((2 * m + 1) div 2))" by (rule bitlen_pos) simp
  also have "(2 * m + 1) div 2 = m" by simp
  finally show ?case using Suc unfolding a b by simp
qed

lemma tree_width_pow2: "tree_width (2 ^ w) = w"
  unfolding tree_width_def by (rule bitlen_pow2)


lemma bitlen_le: "n < 2 ^ k \<Longrightarrow> bitlen n \<le> k"
proof (induction n arbitrary: k rule: bitlen.induct)
  case (1 n)
  show ?case
  proof (cases "n = 0")
    case True
    then show ?thesis by simp
  next
    case False
    then obtain k' where k: "k = Suc k'" using 1(2) by (cases k) auto
    then have "n div 2 < 2 ^ k'" using 1(2) by simp
    then have "bitlen (n div 2) \<le> k'" using 1(1) False by simp
    then show ?thesis using k False bitlen_pos[of n] by simp
  qed
qed

lemma length_prefix_entries: "length (prefix_entries H hs s 63) = set_bits 63 s"
  by (simp add: prefix_entries_def set_bits_def rev_filter[symmetric])

lemma length_filter_mono:
  "(\<And>x. x \<in> set xs \<Longrightarrow> P x \<Longrightarrow> Q x) \<Longrightarrow> length (filter P xs) \<le> length (filter Q xs)"
  by (induction xs) auto

lemma filter_below:
  assumes "w \<le> m"
  shows "filter (\<lambda>j. j < w \<and> P j) [0..<m] = filter P [0..<w]"
proof -
  have "[0..<m] = [0..<w] @ [w..<m]" using assms by (metis upt_add_eq_append le0 le_Suc_ex)
  moreover have "filter (\<lambda>j. j < w \<and> P j) [w..<m] = []" by (simp add: filter_empty_conv)
  moreover have "filter (\<lambda>j. j < w \<and> P j) [0..<w] = filter P [0..<w]"
    by (rule filter_cong) auto
  ultimately show ?thesis by simp
qed

lemma suffix_index_below_width:
  assumes "round_up e j < N"
  shows "j < tree_width N"
proof -
  have "2 ^ j \<le> round_up e j" by (rule round_up_ge_pow)
  then have "2 ^ j \<le> N - 1" using assms by linarith
  then show ?thesis unfolding tree_width_def by (rule bitlen_ge)
qed

lemma tree_width_le_63: "N \<le> 2 ^ 63 \<Longrightarrow> tree_width N \<le> 63"
proof -
  assume "N \<le> 2 ^ 63"
  then have "N - 1 < 2 ^ 63" by simp
  then show ?thesis unfolding tree_width_def by (rule bitlen_le)
qed

lemma length_suffix_entries_le:
  assumes "length hs \<le> 2 ^ 63"
  shows "length (suffix_entries H hs e 0) \<le> clear_bits (tree_width (length hs)) e"
proof -
  have "length (suffix_entries H hs e 0)
      = length (filter (\<lambda>j. \<not> bit e j \<and> round_up e j < length hs) [0..<63])"
    by (simp add: suffix_entries_def)
  also have "\<dots> \<le> length (filter (\<lambda>j. j < tree_width (length hs) \<and> \<not> bit e j) [0..<63])"
    by (rule length_filter_mono) (auto simp: suffix_index_below_width)
  also have "\<dots> = clear_bits (tree_width (length hs)) e"
    unfolding clear_bits_def using filter_below[OF tree_width_le_63[OF assms]] by simp
  finally show ?thesis .
qed

lemma round_up_below_pow2:
  assumes "e < 2 ^ w" and "j < w" and "\<not> bit e j"
  shows "round_up e j < 2 ^ w"
proof -
  define q where "q = e div 2 ^ j"
  have w: "(2::nat) ^ w = 2 ^ (w - j) * 2 ^ j"
    using assms(2) by (simp add: power_add[symmetric])
  have "e < 2 ^ (w - j) * 2 ^ j" using assms(1) w by simp
  then have q1: "q < 2 ^ (w - j)" unfolding q_def by (rule less_mult_imp_div_less)
  have "even q" using assms(3) unfolding q_def by (simp add: bit_iff_odd)
  moreover have "even ((2::nat) ^ (w - j))" using assms(2) by simp
  ultimately have "q + 1 \<noteq> 2 ^ (w - j)" by (metis even_plus_one_iff)
  then have "q + 1 < 2 ^ (w - j)" using q1 by linarith
  moreover have "0 < (2::nat) ^ j" by simp
  ultimately have "(q + 1) * 2 ^ j < 2 ^ (w - j) * 2 ^ j" by (rule mult_less_mono1)
  then show ?thesis unfolding round_up_def q_def[symmetric] w .
qed

lemma length_suffix_entries_pow2:
  assumes "length hs = 2 ^ w" and "w \<le> 63" and "e < length hs"
  shows "length (suffix_entries H hs e 0) = clear_bits w e"
proof -
  have "filter (\<lambda>j. \<not> bit e j \<and> round_up e j < length hs) [0..<63]
      = filter (\<lambda>j. j < w \<and> \<not> bit e j) [0..<63]"
  proof (rule filter_cong[OF refl])
    fix j assume "j \<in> set [0..<63]"
    show "(\<not> bit e j \<and> round_up e j < length hs) = (j < w \<and> \<not> bit e j)"
    proof (cases "j < w")
      case True
      then show ?thesis using round_up_below_pow2[of e w j] assms(1,3) by auto
    next
      case False
      then have "(2::nat) ^ w \<le> 2 ^ j" by (simp add: power_increasing)
      then have "length hs \<le> round_up e j"
        using round_up_ge_pow[of j e] assms(1) by linarith
      then show ?thesis using False by simp
    qed
  qed
  then show ?thesis
    unfolding suffix_entries_def clear_bits_def using filter_below[OF assms(2)] by simp
qed


lemma set_bits_Suc: "set_bits (Suc w) x = set_bits w x + (if bit x w then 1 else 0)"
  by (simp add: set_bits_def)

lemma clear_bits_Suc: "clear_bits (Suc w) x = clear_bits w x + (if bit x w then 0 else 1)"
  by (simp add: clear_bits_def)

lemma set_bits_le: "set_bits w x \<le> w"
  unfolding set_bits_def by (metis length_filter_le length_upt diff_zero)

lemma clear_bits_le: "clear_bits w x \<le> w"
  unfolding clear_bits_def by (metis length_filter_le length_upt diff_zero)

lemma mod_exp_Suc: "(x::nat) mod 2 ^ Suc w = x mod 2 ^ w + (if bit x w then 2 ^ w else 0)"
  using take_bit_Suc_from_most[of w x] by (simp add: take_bit_eq_mod)

lemma bits_bound:
  "s mod 2 ^ w \<le> e mod 2 ^ w \<Longrightarrow>
   set_bits w s + clear_bits w e \<le> (if w \<le> 1 then w else 2 * w - 2)"
proof (induction w)
  case 0
  then show ?case by (simp add: set_bits_def clear_bits_def)
next
  case (Suc w)
  have sm: "s mod 2 ^ w < 2 ^ w" and em: "e mod 2 ^ w < 2 ^ w" by simp_all
  show ?case
  proof (cases "bit s w = bit e w")
    case True
    then have "s mod 2 ^ w \<le> e mod 2 ^ w"
      using Suc.prems unfolding mod_exp_Suc by (simp split: if_splits)
    then have A: "set_bits w s + clear_bits w e \<le> (if w \<le> 1 then w else 2 * w - 2)"
      by (rule Suc.IH)
    have B: "set_bits (Suc w) s + clear_bits (Suc w) e = set_bits w s + clear_bits w e + 1"
      using True by (simp add: set_bits_Suc clear_bits_Suc)
    define t where "t = set_bits w s + clear_bits w e"
    have "t + 1 \<le> (if Suc w \<le> 1 then Suc w else 2 * Suc w - 2)"
      using A unfolding t_def[symmetric] by (cases "w \<le> 1") auto
    then show ?thesis unfolding B t_def .
  next
    case False
    have "\<not> (bit s w \<and> \<not> bit e w)"
    proof
      assume a: "bit s w \<and> \<not> bit e w"
      then have "s mod 2 ^ Suc w \<ge> 2 ^ w" "e mod 2 ^ Suc w = e mod 2 ^ w"
        unfolding mod_exp_Suc by simp_all
      then show False using Suc.prems em by linarith
    qed
    then have b: "\<not> bit s w" "bit e w" using False by auto
    have "set_bits (Suc w) s + clear_bits (Suc w) e = set_bits w s + clear_bits w e"
      using b by (simp add: set_bits_Suc clear_bits_Suc)
    also have "\<dots> \<le> w + w" using set_bits_le[of w s] clear_bits_le[of w e] by linarith
    also have "\<dots> \<le> (if Suc w \<le> 1 then Suc w else 2 * Suc w - 2)" by auto
    finally show ?thesis .
  qed
qed

lemma not_bit_above: "(x::nat) < 2 ^ w \<Longrightarrow> w \<le> j \<Longrightarrow> \<not> bit x j"
proof -
  assume a: "x < 2 ^ w" and b: "w \<le> j"
  have "(2::nat) ^ w \<le> 2 ^ j" using b by (simp add: power_increasing)
  then have "x < 2 ^ j" using a by linarith
  then show ?thesis by (simp add: bit_iff_odd)
qed

lemma set_bits_63:
  assumes "x < 2 ^ w" and "w \<le> 63"
  shows "set_bits 63 x = set_bits w x"
proof -
  have "filter (\<lambda>j. bit x j) [0..<63] = filter (\<lambda>j. j < w \<and> bit x j) [0..<63]"
  proof (rule filter_cong[OF refl])
    fix j assume "j \<in> set [0..<63]"
    show "bit x j = (j < w \<and> bit x j)"
      using not_bit_above[OF assms(1), of j] by (cases "j < w") auto
  qed
  then show ?thesis unfolding set_bits_def using filter_below[OF assms(2)] by simp
qed

lemma set_bits_mask: "set_bits w (2 ^ m - 1) = min w m"
proof (induction w)
  case 0
  then show ?case by (simp add: set_bits_def)
next
  case (Suc w)
  have "bit ((2::nat) ^ m - 1) w \<longleftrightarrow> w < m"
    using bit_mask_iff[where ?'a = nat, of m w] by (simp add: mask_eq_exp_minus_1)
  then show ?case using Suc by (simp add: set_bits_Suc)
qed

lemma clear_bits_exp: "clear_bits w (2 ^ m) = (if m < w then w - 1 else w)"
proof (induction w)
  case 0
  then show ?case by (simp add: clear_bits_def)
next
  case (Suc w)
  have "bit ((2::nat) ^ m) w \<longleftrightarrow> w = m"
    by (auto simp: bit_exp_iff)
  then show ?case using Suc by (auto simp: clear_bits_Suc)
qed

section \<open>Proofs over small trees and whole trees\<close>

lemma fold_Push_eq: "fold (Push H) xs t = fold (pushLeafHash H) (map (leafSum H) xs) t"
  by (induction xs arbitrary: t) (simp_all add: Push_eq)

lemma ReaderRoot_eq: "ReaderRoot H L d = CachedRoot H (map (leafSum H) (leaves L d))"
  by (simp add: ReaderRoot_def CachedRoot_def fold_Push_eq)

lemma leaves_take: "0 < L \<Longrightarrow> leaves L (take (n * L) d) = take n (leaves L d)"
proof (induction n arbitrary: d)
  case 0
  then show ?case by simp
next
  case (Suc n)
  show ?case
  proof (cases "d = []")
    case True
    then show ?thesis by simp
  next
    case False
    have ne: "take (Suc n * L) d \<noteq> []" using False Suc.prems by simp
    have a: "take L (take (Suc n * L) d) = take L d" by (simp add: min_def)
    have b: "drop L (take (Suc n * L) d) = take (n * L) (drop L d)"
      by (simp add: drop_take)
    have "leaves L (take (Suc n * L) d) = take L d # leaves L (take (n * L) (drop L d))"
      using leaves_Cons[OF Suc.prems ne] unfolding a b .
    also have "\<dots> = take L d # take n (leaves L (drop L d))"
      using Suc.IH[OF Suc.prems] by simp
    also have "\<dots> = take (Suc n) (leaves L d)"
      using leaves_Cons[OF Suc.prems False] by simp
    finally show ?thesis .
  qed
qed

lemma stream_segment_root_eq:
  "0 < L \<Longrightarrow> stream_segment_root H L d a n = segment_root H (map (leafSum H) (leaves L d)) a n"
  by (simp add: stream_segment_root_def segment_root_def ReaderRoot_eq leaves_take leaves_drop
      take_map drop_map)

lemma prefix_entries_small:
  assumes "s < 2 ^ k" and "k \<le> 63"
  shows "prefix_entries H hs s 63 = prefix_entries H hs s k"
proof -
  have "[0..<63] = [0..<k] @ [k..<63]" using assms(2) by (metis upt_add_eq_append le0 le_Suc_ex)
  moreover have "filter (\<lambda>j. bit s j) (rev [k..<63]) = []"
    using not_bit_above[OF assms(1)] by (simp add: filter_empty_conv)
  ultimately show ?thesis by (simp add: prefix_entries_def)
qed

lemma suffix_entries_small:
  assumes "length hs \<le> 2 ^ w" and "w \<le> 63"
  shows "suffix_entries H hs e 0 =
     map (\<lambda>j. segment_root H hs (round_up e j) (2 ^ j))
       (filter (\<lambda>j. \<not> bit e j \<and> round_up e j < length hs) [0..<w])"
proof -
  have "[0..<63] = [0..<w] @ [w..<63]" using assms(2) by (metis upt_add_eq_append le0 le_Suc_ex)
  moreover have "filter (\<lambda>j. \<not> bit e j \<and> round_up e j < length hs) [w..<63] = []"
  proof -
    have "\<not> round_up e j < length hs" if "w \<le> j" for j
    proof -
      have "(2::nat) ^ w \<le> 2 ^ j" using that by (simp add: power_increasing)
      then show ?thesis using round_up_ge_pow[of j e] assms(1) by linarith
    qed
    then show ?thesis by (simp add: filter_empty_conv)
  qed
  ultimately show ?thesis by (simp add: suffix_entries_def)
qed

lemma range_proof_3_5:
  assumes "length hs = 12"
  shows "range_proof H hs 3 5 =
    [segment_root H hs 0 2, segment_root H hs 2 1, segment_root H hs 5 1,
     segment_root H hs 6 2, segment_root H hs 8 4]"
proof -
  have p: "prefix_entries H hs 3 63 = prefix_entries H hs 3 2"
    by (rule prefix_entries_small) simp_all
  have u2: "rev [0..<2] = [1, 0::nat]" by (simp add: numeral_2_eq_2)
  have b: "bit (3::nat) 1" "bit (3::nat) 0" by (simp_all add: bit_iff_odd)
  have p2: "prefix_entries H hs 3 2 = [segment_root H hs 0 2, segment_root H hs 2 1]"
    unfolding prefix_entries_def u2 using b by (simp add: round_down_def)
  have "length hs \<le> 2 ^ 4" using assms by simp
  then have s: "suffix_entries H hs 4 0 =
     map (\<lambda>j. segment_root H hs (round_up 4 j) (2 ^ j))
       (filter (\<lambda>j. \<not> bit (4::nat) j \<and> round_up 4 j < length hs) [0..<4])"
    by (rule suffix_entries_small) simp
  have u4: "[0..<4] = [0, 1, 2, 3::nat]" by (simp add: upt_rec)
  have c: "\<not> bit (4::nat) 0" "\<not> bit (4::nat) 1" "bit (4::nat) 2" "\<not> bit (4::nat) 3"
    by (simp_all add: bit_iff_odd)
  have s4: "suffix_entries H hs 4 0 =
     [segment_root H hs 5 1, segment_root H hs 6 2, segment_root H hs 8 8]"
    unfolding s u4 using c assms by (simp add: round_up_def)
  have l: "segment_root H hs 8 8 = segment_root H hs 8 4"
    using assms by (simp add: segment_root_def)
  have "(5::nat) - 1 = 4" by simp
  then show ?thesis
    unfolding range_proof_def p p2 using s4 l by simp
qed


lemma leaves_length_lower:
  assumes "0 < L" and "e \<le> length (leaves L d)" and "e < length (leaves L d) \<or> length d = length (leaves L d) * L"
  shows "e * L \<le> length d"
proof -
  have n: "length (leaves L d) = (length d + L - 1) div L" using assms(1) by (rule length_leaves)
  show ?thesis
  proof (cases "e < length (leaves L d)")
    case True
    then have "Suc e \<le> (length d + L - 1) div L" unfolding n by simp
    then have "Suc e * L \<le> length d + L - 1"
      using assms(1) by (simp add: less_eq_div_iff_mult_less_eq)
    then show ?thesis using assms(1) by simp
  next
    case False
    then have "length d = length (leaves L d) * L" "e = length (leaves L d)" using assms(2,3) by auto
    then show ?thesis by simp
  qed
qed

lemma round_up_gt: "e < round_up e j"
proof -
  have "e = e div 2 ^ j * 2 ^ j + e mod 2 ^ j" by (rule div_mult_mod_eq[symmetric])
  moreover have "e mod 2 ^ j < 2 ^ j" by simp
  ultimately have "e < e div 2 ^ j * 2 ^ j + 2 ^ j" by linarith
  then show ?thesis by (simp add: round_up_def)
qed

lemma range_proof_whole: "0 < length hs \<Longrightarrow> range_proof H hs 0 (length hs) = []"
proof -
  assume "0 < length hs"
  then have "\<not> round_up (length hs - 1) j < length hs" for j
    using round_up_gt[of "length hs - 1" j] by linarith
  then have "suffix_entries H hs (length hs - 1) 0 = []"
    by (simp add: suffix_entries_def filter_empty_conv)
  then show ?thesis by (simp add: range_proof_def prefix_entries_def)
qed

lemma whole_tree_proof_cached:
  assumes "0 < length hs" and "length hs < 2 ^ 63"
  shows "BuildRangeProof 0 (int (length hs)) (CachedSubtreeHasher H) hs = (Ok [], [])"
  using BuildRangeProof_cached[of 0 "length hs" hs H] assms
  by (simp add: range_proof_whole)

lemma whole_tree_proof_reader:
  assumes "0 < L" and "0 < N" and "length d = N * L" and "N < 2 ^ 63" and "length d < 2 ^ 63"
  shows "BuildRangeProof 0 (int N) (ReaderSubtreeHasher H L) (Reader d None) = (Ok [], Reader [] None)"
proof -
  have a: "length (leaves L d) = (length d + L - 1) div L" using assms(1) by (rule length_leaves)
  have b: "length d + L - 1 = (L - 1) + N * L" using assms(1,3) by simp
  have "L \<noteq> 0" using assms(1) by simp
  then have c: "((L - 1) + N * L) div L = N + (L - 1) div L" by (rule div_mult_self1)
  have e: "(L - 1) div L = 0" using assms(1) by simp
  have n: "length (leaves L d) = N" unfolding a b c e by simp
  have "BuildRangeProof (int 0) (int N) (ReaderSubtreeHasher H L) (Reader d None)
      = (Ok (range_proof H (map (leafSum H) (leaves L d)) 0 N), Reader [] None)"
    by (rule BuildRangeProof_reader) (use assms n in simp_all)
  moreover have "range_proof H (map (leafSum H) (leaves L d)) 0 N = []"
    using range_proof_whole[of "map (leafSum H) (leaves L d)" H] n assms(2) by simp
  ultimately show ?thesis by simp
qed

section \<open>The verifier replays the proof\<close>











section \<open>Claims about panics and Skip\<close>

text \<open>
  C2, as stated, fails in its middle part: a malformed proof is not always answered with
  false or an error. With 64-bit positions for at most 64 entries, a 65th entry is never
  looked at: for the range \<open>[2^63 - 2, 2^63 - 1)\<close> the proof with a leftover entry is
  accepted against the root of its first 64 entries. Over a hash without collision
  resistance a proof with too few entries is accepted as well: the empty proof for the
  first of four leaves, where the builder returns two entries.
\<close>

theorem C2_malformed_proof_accepted:
  "VerifyRangeProof (CachedLeafHasher [[0]]) id (2 ^ 63 - 2) (2 ^ 63 - 1)
      (replicate 64 [1] @ [[9]]) (replicate 126 1 @ [0, 1, 1]) = Ok True
   \<and> fst (BuildRangeProof 0 1 (CachedSubtreeHasher (take 0)) [[], [], [], []]) = Ok [[], []]
   \<and> VerifyRangeProof (CachedLeafHasher [[]]) (take 0) 0 1 []
        (slice_of (CachedRoot (take 0) [[], [], [], []])) = Ok True"
  by code_simp



text \<open>
  C8: \<open>BuildRangeProof\<close> (over either source) and \<open>VerifyRangeProof\<close> panic exactly when
  \<open>start < 0\<close> or \<open>start \<ge> end\<close>; the panic is the first thing they do, so the cursor is
  left untouched.
\<close>

theorem C8_range_precondition:
  "(is_Panic (fst (BuildRangeProof proofStart proofEnd (CachedSubtreeHasher H) hs))
      \<longleftrightarrow> proofStart < 0 \<or> proofEnd \<le> proofStart)
   \<and> (is_Panic (fst (BuildRangeProof proofStart proofEnd (ReaderSubtreeHasher H L) r))
      \<longleftrightarrow> proofStart < 0 \<or> proofEnd \<le> proofStart)
   \<and> (is_Panic (VerifyRangeProof lh H proofStart proofEnd proof root)
      \<longleftrightarrow> proofStart < 0 \<or> proofEnd \<le> proofStart)
   \<and> (proofStart < 0 \<or> proofEnd \<le> proofStart \<longrightarrow>
        BuildRangeProof proofStart proofEnd h s
          = (Panic (PanicMsg ''BuildRangeProof: illegal proof range''), s)
        \<and> VerifyRangeProof lh H proofStart proofEnd proof root
          = Panic (PanicMsg ''VerifyRangeProof: illegal proof range''))"
proof -
  have ill: "illegal_range proofStart proofEnd \<longleftrightarrow> proofStart < 0 \<or> proofEnd \<le> proofStart"
    by (auto simp: illegal_range_def)
  have a: "is_Panic (fst (BuildRangeProof proofStart proofEnd (CachedSubtreeHasher H) hs))
      \<longleftrightarrow> proofStart < 0 \<or> proofEnd \<le> proofStart"
    unfolding ill[symmetric]
    by (rule BuildRangeProof_panic_iff) (simp_all add: csh_NextSubtreeRoot_no_panic csh_Skip_no_panic)
  have b: "is_Panic (fst (BuildRangeProof proofStart proofEnd (ReaderSubtreeHasher H L) r))
      \<longleftrightarrow> proofStart < 0 \<or> proofEnd \<le> proofStart"
    unfolding ill[symmetric]
    by (rule BuildRangeProof_panic_iff) (simp_all add: rsh_NextSubtreeRoot_no_panic rsh_Skip_no_panic)
  have c: "is_Panic (VerifyRangeProof lh H proofStart proofEnd proof root)
      \<longleftrightarrow> proofStart < 0 \<or> proofEnd \<le> proofStart"
    unfolding ill[symmetric] by (rule VerifyRangeProof_panic_iff)
  have d: "proofStart < 0 \<or> proofEnd \<le> proofStart \<longrightarrow>
        BuildRangeProof proofStart proofEnd h s
          = (Panic (PanicMsg ''BuildRangeProof: illegal proof range''), s)
        \<and> VerifyRangeProof lh H proofStart proofEnd proof root
          = Panic (PanicMsg ''VerifyRangeProof: illegal proof range'')"
    unfolding ill[symmetric] by (simp add: BuildRangeProof_def VerifyRangeProof_def)
  from a b c d show ?thesis by blast
qed

theorem C8_range_precondition_witness:
  "((5::int) < 0 \<or> (5::int) \<le> 5)
   \<and> is_Panic (fst (BuildRangeProof 5 5 (CachedSubtreeHasher (\<lambda>b. b)) [[1]]))
   \<and> BuildRangeProof 5 5 (CachedSubtreeHasher (\<lambda>b. b)) [[1]]
       = (Panic (PanicMsg ''BuildRangeProof: illegal proof range''), [[1]])
   \<and> VerifyRangeProof (CachedLeafHasher []) (\<lambda>b. b) 5 5 [] []
       = Panic (PanicMsg ''VerifyRangeProof: illegal proof range'')
   \<and> \<not> is_Panic (VerifyRangeProof (CachedLeafHasher []) (\<lambda>b. b) 0 1 [] [])"
  using C8_range_precondition [of 5 5 "\<lambda>b. b" "[[1]]" 0 "Reader [] None" "CachedLeafHasher []" "[]" "[]"
      "CachedSubtreeHasher (\<lambda>b. b)" "[[1]]"]
    C8_range_precondition [of 0 1 "\<lambda>b. b" "[[1]]" 0 "Reader [] None" "CachedLeafHasher []" "[]" "[]"
      "CachedSubtreeHasher (\<lambda>b. b)" "[[1]]"]
  by simp

text \<open>
  C5: with a short final leaf the stream holds exactly two leaves of nominal size 4, yet
  \<open>Skip(2)\<close> of the stream-backed hasher fails with \<open>io.ErrUnexpectedEOF\<close>.
\<close>

theorem C5_reader_Skip_short_final_leaf:
  "length (leaves 4 [1, 2, 3, 4, 5, 6]) = 2 \<and>
   Skip (ReaderSubtreeHasher H 4) 2 (Reader [1, 2, 3, 4, 5, 6] None)
     = (Err ErrUnexpectedEOF, Reader [] None)"
  by (simp add: leaves_Cons ReaderSubtreeHasher_def rsh_Skip_def int64_id)

section \<open>Claims about the cursor pattern\<close>

text \<open>
  C10, as stated, fails: over a source without leaves \<open>BuildRangeProof(1, 2)\<close> calls
  \<open>NextSubtreeRoot(1)\<close>, receives \<open>io.EOF\<close> and returns it; \<open>Skip\<close> is never called.
\<close>

theorem C10_no_Skip_after_error:
  "(0::int) \<le> 1 \<and> (1::int) < 2
   \<and> BuildRangeProof 1 2 (traced (CachedSubtreeHasher id)) ([], [])
       = (Err EOF, ([], [OpNextSubtreeRoot 1]))
   \<and> OpSkip (2 - 1) \<notin> set (snd (snd (BuildRangeProof 1 2 (traced (CachedSubtreeHasher id)) ([], []))))"
  by code_simp

text \<open>
  C10, amended: for a legal range of 64-bit integers and any SubtreeHasher, the cursor
  operations of \<open>BuildRangeProof\<close> are exactly the operations of the fixed pattern,
  carried out in order up to and including the first one that does not return a value
  with a nil error: \<open>NextSubtreeRoot(2^i)\<close> for the set bits of \<open>start\<close>, highest first,
  one \<open>Skip(end - start)\<close>, \<open>NextSubtreeRoot(2^i)\<close> for the clear bits of \<open>end - 1\<close>
  below bit 63, lowest first, and a last call with the wrapped shift of bit 63. Recording
  the operations changes neither the result nor the final state of the cursor. When a
  proof is returned, all calls for the bits of \<open>start\<close> and the \<open>Skip\<close> were made.
\<close>

theorem C10_cursor_pattern:
  assumes "0 \<le> proofStart" and "proofStart < proofEnd" and "proofEnd < 2 ^ 63"
  shows "BuildRangeProof proofStart proofEnd (traced h) (s, [])
           = (fst (BuildRangeProof proofStart proofEnd h s),
              (snd (BuildRangeProof proofStart proofEnd h s),
               fst (performed h (cursor_pattern proofStart proofEnd) s)))
         \<and> prefix (fst (performed h (cursor_pattern proofStart proofEnd) s))
              (cursor_pattern proofStart proofEnd)
         \<and> ((\<exists>p. fst (BuildRangeProof proofStart proofEnd h s) = Ok p) \<longrightarrow>
              prefix (map (\<lambda>i. OpNextSubtreeRoot (2 ^ i)) (filter (\<lambda>i. bit proofStart i) (rev [0..<63]))
                      @ [OpSkip (proofEnd - proofStart)])
                (fst (performed h (cursor_pattern proofStart proofEnd) s)))"
proof -
  have s: "proofStart < 2 ^ 63" using assms by simp
  have e: "0 \<le> proofEnd - 1" "proofEnd - 1 < 2 ^ 63" using assms by simp_all
  have pat: "prefix_ops proofStart 64 @ [OpSkip (proofEnd - proofStart)] @ suffix_ops (proofEnd - 1) 64
      = cursor_pattern proofStart proofEnd"
    unfolding cursor_pattern_def prefix_ops_64[OF assms(1) s] suffix_ops_64[OF e] by simp
  have a: "BuildRangeProof proofStart proofEnd (traced h) (s, [])
           = (fst (BuildRangeProof proofStart proofEnd h s),
              (snd (BuildRangeProof proofStart proofEnd h s),
               fst (performed h (cursor_pattern proofStart proofEnd) s)))"
    using BuildRangeProof_performed[OF assms(1,2), of h s] unfolding pat .
  have "\<exists>ops. BuildRangeProof proofStart proofEnd (traced h) (s, [])
           = (fst (BuildRangeProof proofStart proofEnd h s),
              (snd (BuildRangeProof proofStart proofEnd h s), ops))
         \<and> prefix ops (cursor_pattern proofStart proofEnd)
         \<and> ((\<exists>p. fst (BuildRangeProof proofStart proofEnd h s) = Ok p) \<longrightarrow>
              prefix (prefix_ops proofStart 64 @ [OpSkip (proofEnd - proofStart)]) ops)"
    using BuildRangeProof_traced[OF assms(1,2), of h s] unfolding pat .
  then obtain ops where
    b: "BuildRangeProof proofStart proofEnd (traced h) (s, [])
           = (fst (BuildRangeProof proofStart proofEnd h s),
              (snd (BuildRangeProof proofStart proofEnd h s), ops))"
    and c: "prefix ops (cursor_pattern proofStart proofEnd)"
    and d: "(\<exists>p. fst (BuildRangeProof proofStart proofEnd h s) = Ok p) \<longrightarrow>
              prefix (prefix_ops proofStart 64 @ [OpSkip (proofEnd - proofStart)]) ops"
    by blast
  have o: "ops = fst (performed h (cursor_pattern proofStart proofEnd) s)"
    using a b by simp
  show ?thesis
    using a c d unfolding o prefix_ops_64[OF assms(1) s] by blast
qed

text \<open>
  Over six leaves the operations for \<open>[3, 5)\<close> are \<open>NextSubtreeRoot(2)\<close>,
  \<open>NextSubtreeRoot(1)\<close>, \<open>Skip(2)\<close>, \<open>NextSubtreeRoot(1)\<close> and the
  \<open>NextSubtreeRoot(2)\<close> that reports the end of the stream.
\<close>

theorem C10_cursor_pattern_witness:
  "(0::int) \<le> 3 \<and> (3::int) < 5 \<and> (5::int) < 2 ^ 63
   \<and> snd (snd (BuildRangeProof 3 5 (traced (CachedSubtreeHasher (\<lambda>b. b)))
                 ([[1], [2], [3], [4], [5], [6]], [])))
       = fst (performed (CachedSubtreeHasher (\<lambda>b. b)) (cursor_pattern 3 5)
                [[1], [2], [3], [4], [5], [6]])
   \<and> snd (snd (BuildRangeProof 3 5 (traced (CachedSubtreeHasher (\<lambda>b. b)))
                 ([[1], [2], [3], [4], [5], [6]], [])))
       = [OpNextSubtreeRoot 2, OpNextSubtreeRoot 1, OpSkip 2, OpNextSubtreeRoot 1, OpNextSubtreeRoot 2]"
proof -
  have "snd (snd (BuildRangeProof 3 5 (traced (CachedSubtreeHasher (\<lambda>b. b)))
                 ([[1], [2], [3], [4], [5], [6]], [])))
       = [OpNextSubtreeRoot 2, OpNextSubtreeRoot 1, OpSkip 2, OpNextSubtreeRoot 1, OpNextSubtreeRoot 2]"
    by code_simp
  then show ?thesis
    using C10_cursor_pattern [of 3 5 "CachedSubtreeHasher (\<lambda>b. b)" "[[1], [2], [3], [4], [5], [6]]"]
    by simp
qed

section \<open>Claims that fail on a concrete input\<close>


text \<open>
  C1: a stream of two leaves of nominal size 4 whose last leaf is short, range \<open>[1, 2)\<close>.
  Over the leaf hashes the proof is built and verifies against the root of the stream;
  over the stream itself \<open>BuildRangeProof\<close> fails with \<open>io.ErrUnexpectedEOF\<close>.
\<close>

theorem C1_stream_short_final_leaf:
  "length (leaves 4 [1, 2, 3, 4, 5, 6]) = 2
   \<and> BuildRangeProof 1 2 (ReaderSubtreeHasher id 4) (Reader [1, 2, 3, 4, 5, 6] None)
       = (Err ErrUnexpectedEOF, Reader [] None)
   \<and> BuildRangeProof 1 2 (CachedSubtreeHasher id) (map (leafSum id) (leaves 4 [1, 2, 3, 4, 5, 6]))
       = (Ok [[0, 1, 2, 3, 4]], [])
   \<and> VerifyRangeProof (ReaderLeafHasher (Reader [5, 6] None) 4) id 1 2 [[0, 1, 2, 3, 4]]
         (slice_of (ReaderRoot id 4 [1, 2, 3, 4, 5, 6]))
       = Ok True"
  by code_simp

text \<open>
  C6: the same stream, whole range \<open>[0, 2)\<close>. Over the leaf hashes the proof is empty;
  over the stream \<open>BuildRangeProof\<close> fails with \<open>io.ErrUnexpectedEOF\<close>.
\<close>

theorem C6_stream_short_final_leaf:
  "length (leaves 4 [1, 2, 3, 4, 5, 6]) = 2
   \<and> BuildRangeProof 0 2 (ReaderSubtreeHasher id 4) (Reader [1, 2, 3, 4, 5, 6] None)
       = (Err ErrUnexpectedEOF, Reader [] None)
   \<and> BuildRangeProof 0 2 (CachedSubtreeHasher id) (map (leafSum id) (leaves 4 [1, 2, 3, 4, 5, 6]))
       = (Ok [], [])"
  by code_simp

section \<open>The worked example\<close>

text \<open>
  C4: over twelve leaves the proof for the range \<open>[3, 5)\<close> consists, in this order, of
  the roots of the leaf segments \<open>[0, 2)\<close>, \<open>[2, 3)\<close>, \<open>[5, 6)\<close>, \<open>[6, 8)\<close> and
  \<open>[8, 12)\<close>, each computed on its own; this holds over a list of leaf hashes and over a
  stream of twelve leaves (the last of which may be short).
\<close>

theorem C4_worked_example:
  "(length hs = 12 \<longrightarrow>
      BuildRangeProof 3 5 (CachedSubtreeHasher H) hs
        = (Ok [segment_root H hs 0 2, segment_root H hs 2 1, segment_root H hs 5 1,
               segment_root H hs 6 2, segment_root H hs 8 4], []))
   \<and> (0 < L \<and> length (leaves L d) = 12 \<and> length d < 2 ^ 63 \<longrightarrow>
      BuildRangeProof 3 5 (ReaderSubtreeHasher H L) (Reader d None)
        = (Ok [stream_segment_root H L d 0 2, stream_segment_root H L d 2 1,
               stream_segment_root H L d 5 1, stream_segment_root H L d 6 2,
               stream_segment_root H L d 8 4], Reader [] None))"
proof (intro conjI impI)
  assume l: "length hs = 12"
  have "BuildRangeProof (int 3) (int 5) (CachedSubtreeHasher H) hs = (Ok (range_proof H hs 3 5), [])"
    by (rule BuildRangeProof_cached) (use l in simp_all)
  then show "BuildRangeProof 3 5 (CachedSubtreeHasher H) hs
        = (Ok [segment_root H hs 0 2, segment_root H hs 2 1, segment_root H hs 5 1,
               segment_root H hs 6 2, segment_root H hs 8 4], [])"
    using range_proof_3_5[OF l, of H] by simp
next
  assume a: "0 < L \<and> length (leaves L d) = 12 \<and> length d < 2 ^ 63"
  then have L: "0 < L" and l: "length (leaves L d) = 12" and dl: "length d < 2 ^ 63" by simp_all
  define hs where "hs = map (leafSum H) (leaves L d)"
  have lh: "length hs = 12" using l by (simp add: hs_def)
  have w: "5 * L \<le> length d"
    by (rule leaves_length_lower[OF L]) (use l in simp_all)
  have "BuildRangeProof (int 3) (int 5) (ReaderSubtreeHasher H L) (Reader d None)
      = (Ok (range_proof H (map (leafSum H) (leaves L d)) 3 5), Reader [] None)"
    by (rule BuildRangeProof_reader[OF L]) (use l w dl in simp_all)
  then show "BuildRangeProof 3 5 (ReaderSubtreeHasher H L) (Reader d None)
        = (Ok [stream_segment_root H L d 0 2, stream_segment_root H L d 2 1,
               stream_segment_root H L d 5 1, stream_segment_root H L d 6 2,
               stream_segment_root H L d 8 4], Reader [] None)"
    using range_proof_3_5[OF lh, of H] L by (simp add: stream_segment_root_eq hs_def)
qed

text \<open>The worked example on twelve concrete leaves, over both sources.\<close>

theorem C4_worked_example_witness:
  "length [[0], [1], [2], [3], [4], [5], [6], [7], [8], [9], [10], [11::byte]] = 12
   \<and> BuildRangeProof 3 5 (CachedSubtreeHasher (\<lambda>b. b))
        [[0], [1], [2], [3], [4], [5], [6], [7], [8], [9], [10], [11]]
      = (Ok [[1, 0, 1], [2], [5], [1, 6, 7], [1, 1, 8, 9, 1, 10, 11]], [])
   \<and> (0::nat) < 1 \<and> length (leaves 1 [0, 1, 2, 3, 4, 5, 6, 7, 8, 9, 10, 11]) = 12
   \<and> BuildRangeProof 3 5 (ReaderSubtreeHasher (\<lambda>b. b) 1)
        (Reader [0, 1, 2, 3, 4, 5, 6, 7, 8, 9, 10, 11] None)
      = (Ok [[1, 0, 0, 0, 1], [0, 2], [0, 5], [1, 0, 6, 0, 7],
             [1, 1, 0, 8, 0, 9, 1, 0, 10, 0, 11]], Reader [] None)"
proof -
  have a: "segment_root (\<lambda>b. b) [[0], [1], [2], [3], [4], [5], [6], [7], [8], [9], [10], [11::byte]] 0 2 = [1, 0, 1]"
    "segment_root (\<lambda>b. b) [[0], [1], [2], [3], [4], [5], [6], [7], [8], [9], [10], [11::byte]] 2 1 = [2]"
    "segment_root (\<lambda>b. b) [[0], [1], [2], [3], [4], [5], [6], [7], [8], [9], [10], [11::byte]] 5 1 = [5]"
    "segment_root (\<lambda>b. b) [[0], [1], [2], [3], [4], [5], [6], [7], [8], [9], [10], [11::byte]] 6 2 = [1, 6, 7]"
    "segment_root (\<lambda>b. b) [[0], [1], [2], [3], [4], [5], [6], [7], [8], [9], [10], [11::byte]] 8 4 = [1, 1, 8, 9, 1, 10, 11]"
    by code_simp+
  have b: "stream_segment_root (\<lambda>b. b) 1 [0, 1, 2, 3, 4, 5, 6, 7, 8, 9, 10, 11] 0 2 = [1, 0, 0, 0, 1]"
    "stream_segment_root (\<lambda>b. b) 1 [0, 1, 2, 3, 4, 5, 6, 7, 8, 9, 10, 11] 2 1 = [0, 2]"
    "stream_segment_root (\<lambda>b. b) 1 [0, 1, 2, 3, 4, 5, 6, 7, 8, 9, 10, 11] 5 1 = [0, 5]"
    "stream_segment_root (\<lambda>b. b) 1 [0, 1, 2, 3, 4, 5, 6, 7, 8, 9, 10, 11] 6 2 = [1, 0, 6, 0, 7]"
    "stream_segment_root (\<lambda>b. b) 1 [0, 1, 2, 3, 4, 5, 6, 7, 8, 9, 10, 11] 8 4
       = [1, 1, 0, 8, 0, 9, 1, 0, 10, 0, 11]"
    by code_simp+
  have c: "length (leaves 1 [0, 1, 2, 3, 4, 5, 6, 7, 8, 9, 10, 11::byte]) = 12"
    by code_simp
  show ?thesis
    using C4_worked_example [of "[[0], [1], [2], [3], [4], [5], [6], [7], [8], [9], [10], [11]]"
        "\<lambda>b. b" 1 "[0, 1, 2, 3, 4, 5, 6, 7, 8, 9, 10, 11]"]
    unfolding a b using c by simp
qed

end
